theory Spec2Isabelle
  imports Main "HOL-Library.Code_Target_Nat"
begin

section \<open>JavaScript strings\<close>

text \<open>
  A JavaScript string is a sequence of UTF-16 code units. A code unit is modelled as a
  natural number (below 65536), a string as the list of its units, so that \<open>length\<close> is
  the \<^verbatim>\<open>.length\<close> of the source. \<open>str\<close> turns an ASCII literal into such a list; a unit
  beyond ASCII is written as its number (\<open>0xE3\<close> is U+00E3).
\<close>

type_synonym jsstring = "nat list"

definition str :: "string \<Rightarrow> jsstring" where
  "str s = map of_char s"

text \<open>\<^verbatim>\<open>\d\<close>: the ten ASCII digits, and nothing else.\<close>

definition isDigit :: "nat \<Rightarrow> bool" where
  "isDigit c = (48 \<le> c \<and> c \<le> 57)"

text \<open>
  \<^verbatim>\<open>\s\<close>, and the units \<^verbatim>\<open>trim()\<close> removes: the WhiteSpace and LineTerminator units of
  ECMAScript.
\<close>

definition isSpace :: "nat \<Rightarrow> bool" where
  "isSpace c = ((0x09 \<le> c \<and> c \<le> 0x0D) \<or> c = 0x20 \<or> c = 0xA0 \<or> c = 0x1680
                 \<or> (0x2000 \<le> c \<and> c \<le> 0x200A) \<or> c = 0x2028 \<or> c = 0x2029
                 \<or> c = 0x202F \<or> c = 0x205F \<or> c = 0x3000 \<or> c = 0xFEFF)"

text \<open>\<^verbatim>\<open>s.trim()\<close>\<close>

definition trim :: "jsstring \<Rightarrow> jsstring" where
  "trim s = rev (dropWhile isSpace (rev (dropWhile isSpace s)))"

text \<open>\<^verbatim>\<open>xs[i]\<close>: \<open>None\<close> is \<^verbatim>\<open>undefined\<close>, the value of a read past the end.\<close>

fun at :: "'a list \<Rightarrow> nat \<Rightarrow> 'a option" where
  "at [] i = None"
| "at (x # xs) 0 = Some x"
| "at (x # xs) (Suc i) = at xs i"

text \<open>
  \<^verbatim>\<open>s.split(sep)\<close> for a separator of one unit: the pieces between the occurrences of
  the separator; always at least one piece.
\<close>

fun js_split :: "nat \<Rightarrow> jsstring \<Rightarrow> jsstring list" where
  "js_split sep [] = [[]]"
| "js_split sep (c # s) =
     (if c = sep then [] # js_split sep s
      else (case js_split sep s of
              [] \<Rightarrow> [[c]]
            | p # ps \<Rightarrow> (c # p) # ps))"

text \<open>\<^verbatim>\<open>parts.join(sep)\<close>\<close>

fun js_join :: "jsstring \<Rightarrow> jsstring list \<Rightarrow> jsstring" where
  "js_join sep [] = []"
| "js_join sep [p] = p"
| "js_join sep (p # q # ps) = p @ sep @ js_join sep (q # ps)"

section \<open>The zod schemas\<close>

text \<open>
  A schema \<^verbatim>\<open>z.string().check1(.., msg1).check2(.., msg2).refine(f, msg3)\<close> applied to a
  string runs its checks in the order written. A failed check adds an issue carrying its
  message and does not stop the later ones (a string check marks the result dirty, it does
  not abort; the refinement runs on a dirty result too). \<^verbatim>\<open>safeParse\<close> succeeds when no
  issue was added, and otherwise \<^verbatim>\<open>result.error.errors\<close> lists the issues in that order.
\<close>

type_synonym check = "(jsstring \<Rightarrow> bool) \<times> jsstring"

datatype safeParseResult = ParseSuccess jsstring | ParseFailure "jsstring list"

definition issues :: "check list \<Rightarrow> jsstring \<Rightarrow> jsstring list" where
  "issues schema data = map snd (filter (\<lambda>(ok, message). \<not> ok data) schema)"

definition safeParse :: "check list \<Rightarrow> jsstring \<Rightarrow> safeParseResult" where
  "safeParse schema data =
     (if issues schema data = [] then ParseSuccess data
      else ParseFailure (issues schema data))"

fun success :: "safeParseResult \<Rightarrow> bool" where
  "success (ParseSuccess data) = True"
| "success (ParseFailure errors) = False"

text \<open>
  \<^verbatim>\<open>result.error.errors[0]?.message || fallback\<close>: the first issue's message, the fallback
  when there is none or when it is the empty string.
\<close>

fun first_message :: "jsstring list \<Rightarrow> jsstring \<Rightarrow> jsstring" where
  "first_message [] fallback = fallback"
| "first_message (m # ms) fallback = (if m = [] then fallback else m)"

text \<open>\<^verbatim>\<open>throw new Error(message)\<close>\<close>

datatype error = Error (message: jsstring)

section \<open>CPF\<close>

datatype CPF = CPF (cpf_value: jsstring)

text \<open>
  \<^verbatim>\<open>parseInt(digit, 10)\<close> on a string of one unit; \<open>None\<close> is \<^verbatim>\<open>NaN\<close>. The numbers of
  \<^verbatim>\<open>validate\<close> are \<open>nat option\<close>: \<open>None\<close> stands for \<^verbatim>\<open>NaN\<close> and for \<^verbatim>\<open>undefined\<close>, which
  arithmetic turns into \<^verbatim>\<open>NaN\<close>; the sums stay far below the range in which a double is
  exact.
\<close>

definition parseInt :: "nat \<Rightarrow> nat option" where
  "parseInt c = (if isDigit c then Some (c - 48) else None)"

definition num_add :: "nat option \<Rightarrow> nat option \<Rightarrow> nat option" where
  "num_add a b = (case (a, b) of (Some x, Some y) \<Rightarrow> Some (x + y) | _ \<Rightarrow> None)"

definition num_mul :: "nat option \<Rightarrow> nat \<Rightarrow> nat option" where
  "num_mul a k = (case a of Some x \<Rightarrow> Some (x * k) | None \<Rightarrow> None)"

text \<open>
  \<^verbatim>\<open>a === b\<close> with a number on the left: \<^verbatim>\<open>NaN\<close> and \<^verbatim>\<open>undefined\<close> equal no number, and
  \<^verbatim>\<open>NaN\<close> does not equal itself.
\<close>

definition num_eq :: "nat option \<Rightarrow> nat option \<Rightarrow> bool" where
  "num_eq a b = (case (a, b) of (Some x, Some y) \<Rightarrow> x = y | _ \<Rightarrow> False)"

text \<open>
  \<^verbatim>\<open>let soma = 0; for (let i = 0; i < n; i++) { soma += digits[i] * (w - i) }\<close>
\<close>

definition soma :: "nat option list \<Rightarrow> nat \<Rightarrow> nat \<Rightarrow> nat option" where
  "soma digits n w =
     foldl (\<lambda>acc i. num_add acc (num_mul (Option.bind (at digits i) id) (w - i)))
       (Some 0) [0..<n]"

text \<open>
  \<^verbatim>\<open>let resto = (soma * 10) % 11; if (resto === 10) { resto = 0 }\<close>
\<close>

definition resto :: "nat option \<Rightarrow> nat option" where
  "resto s = (case s of None \<Rightarrow> None
              | Some v \<Rightarrow> (let r = (v * 10) mod 11 in if r = 10 then Some 0 else Some r))"

text \<open>\<^verbatim>\<open>/^(\d)\1{10}$/.test(cpf)\<close>\<close>

definition repeated_digit :: "jsstring \<Rightarrow> bool" where
  "repeated_digit cpf = (case cpf of [] \<Rightarrow> False | d # rest \<Rightarrow> isDigit d \<and> rest = replicate 10 d)"

definition CPF_validate :: "jsstring \<Rightarrow> bool" where
  "CPF_validate cpf =
     (if repeated_digit cpf then False
      else
        let digits = map parseInt cpf;
            resto1 = resto (soma digits 9 10)
        in if \<not> num_eq resto1 (Option.bind (at digits 9) id) then False
           else
             let resto2 = resto (soma digits 10 11)
             in num_eq resto2 (Option.bind (at digits 10) id))"

text \<open>\<^verbatim>\<open>/^\d{11}$/\<close>\<close>

definition eleven_digits :: "jsstring \<Rightarrow> bool" where
  "eleven_digits cpf = (length cpf = 11 \<and> list_all isDigit cpf)"

definition msg_cpf_digits :: jsstring where
  "msg_cpf_digits = str ''CPF deve conter exatamente 11 d'' @ [0xED] @ str ''gitos num''
                    @ [0xE9] @ str ''ricos''"

definition msg_cpf_invalid :: jsstring where
  "msg_cpf_invalid = str ''CPF inv'' @ [0xE1] @ str ''lido''"

definition CPF_schema :: "check list" where
  "CPF_schema = [(eleven_digits, msg_cpf_digits), (CPF_validate, msg_cpf_invalid)]"

text \<open>\<^verbatim>\<open>cpf.replace(/\D/g, '')\<close>\<close>

definition strip_non_digits :: "jsstring \<Rightarrow> jsstring" where
  "strip_non_digits cpf = filter isDigit cpf"

definition CPF_new :: "jsstring \<Rightarrow> error + CPF" where
  "CPF_new cpf =
     (let cleanCpf = strip_non_digits cpf
      in case safeParse CPF_schema cleanCpf of
           ParseFailure errors \<Rightarrow> Inl (Error (first_message errors msg_cpf_invalid))
         | ParseSuccess data \<Rightarrow> Inr (CPF cleanCpf))"

definition CPF_isValid :: "jsstring \<Rightarrow> bool" where
  "CPF_isValid cpf = success (safeParse CPF_schema (strip_non_digits cpf))"

text \<open>The check digits as the specification words them, on the values of the digits.\<close>

definition digit_values :: "jsstring \<Rightarrow> nat list" where
  "digit_values cpf = map (\<lambda>c. c - 48) cpf"

definition spec_check_digit :: "nat list \<Rightarrow> nat \<Rightarrow> nat" where
  "spec_check_digit ds n =
     (let r = ((\<Sum>i\<leftarrow>[0..<n]. ds ! i * (n + 1 - i)) * 10) mod 11
      in if r = 10 then 0 else r)"

definition all_identical :: "nat list \<Rightarrow> bool" where
  "all_identical ds = list_all (\<lambda>d. d = hd ds) ds"

section \<open>Case conversion\<close>

text \<open>
  \<^verbatim>\<open>toUpperCase()\<close> and \<^verbatim>\<open>toLowerCase()\<close> use the full Unicode case mappings, which do
  not depend on the locale. They are written out here for the units of Basic Latin and
  Latin-1 Supplement (U+0000 to U+00FF) and for the three units outside that range which
  these conversions produce (U+0178, U+039C, U+03BC). On that range the conversions work
  unit by unit; upper-casing U+00DF gives the two units \<open>SS\<close>, U+00FF gives U+0178 and
  U+00B5 gives U+039C. Any other unit is returned as it is, which is not what the engine
  does for the cased letters of other blocks: where a statement below depends on case
  conversion, it is made for strings of units up to U+00FF.
\<close>

definition upper_unit :: "nat \<Rightarrow> jsstring" where
  "upper_unit c =
     (if 0x61 \<le> c \<and> c \<le> 0x7A then [c - 32]
      else if c = 0xB5 then [0x39C]
      else if c = 0xDF then [0x53, 0x53]
      else if (0xE0 \<le> c \<and> c \<le> 0xF6) \<or> (0xF8 \<le> c \<and> c \<le> 0xFE) then [c - 32]
      else if c = 0xFF then [0x178]
      else if c = 0x3BC then [0x39C]
      else [c])"

definition lower_unit :: "nat \<Rightarrow> nat" where
  "lower_unit c =
     (if 0x41 \<le> c \<and> c \<le> 0x5A then c + 32
      else if (0xC0 \<le> c \<and> c \<le> 0xD6) \<or> (0xD8 \<le> c \<and> c \<le> 0xDE) then c + 32
      else if c = 0x178 then 0xFF
      else if c = 0x39C then 0x3BC
      else c)"

definition toUpperCase :: "jsstring \<Rightarrow> jsstring" where
  "toUpperCase s = concat (map upper_unit s)"

definition toLowerCase :: "jsstring \<Rightarrow> jsstring" where
  "toLowerCase s = map lower_unit s"

section \<open>Email\<close>

datatype Email = Email (email_value: jsstring)

text \<open>
  \<^verbatim>\<open>z.string().email(msg)\<close> tests the string against the address pattern of zod 3
  (the library the source reads \<^verbatim>\<open>result.error.errors\<close> from), as it stands since
  version 3.23:

  \<^verbatim>\<open>/^(?!\.)(?!.*\.\.)([A-Z0-9_'+\-\.]*)[A-Z0-9_+-]@([A-Z0-9][A-Z0-9\-]*\.)+[A-Z]{2,}$/i\<close>

  Under the flag \<^verbatim>\<open>i\<close> (without \<^verbatim>\<open>u\<close>) the class \<^verbatim>\<open>[A-Z]\<close> holds the 52 ASCII letters
  and no other unit. No class of the pattern holds \<^verbatim>\<open>@\<close>, so a match has the one \<^verbatim>\<open>@\<close>
  between its local part and its domain; no class of the domain holds the dot, so the
  dots of the domain are the ends of its labels.
\<close>

definition isAlpha :: "nat \<Rightarrow> bool" where
  "isAlpha c = ((0x41 \<le> c \<and> c \<le> 0x5A) \<or> (0x61 \<le> c \<and> c \<le> 0x7A))"

definition isAlnum :: "nat \<Rightarrow> bool" where
  "isAlnum c = (isAlpha c \<or> isDigit c)"

text \<open>\<^verbatim>\<open>[A-Z0-9_'+\-\.]\<close>\<close>

definition local_unit :: "nat \<Rightarrow> bool" where
  "local_unit c = (isAlnum c \<or> c = 0x5F \<or> c = 0x27 \<or> c = 0x2B \<or> c = 0x2D \<or> c = 0x2E)"

text \<open>\<^verbatim>\<open>[A-Z0-9_+-]\<close>\<close>

definition local_last :: "nat \<Rightarrow> bool" where
  "local_last c = (isAlnum c \<or> c = 0x5F \<or> c = 0x2B \<or> c = 0x2D)"

text \<open>\<^verbatim>\<open>([A-Z0-9_'+\-\.]*)[A-Z0-9_+-]\<close>\<close>

definition local_part :: "jsstring \<Rightarrow> bool" where
  "local_part l = (l \<noteq> [] \<and> list_all local_unit (butlast l) \<and> local_last (last l))"

text \<open>\<^verbatim>\<open>[A-Z0-9][A-Z0-9\-]*\<close>\<close>

definition domain_label :: "jsstring \<Rightarrow> bool" where
  "domain_label l =
     (case l of [] \<Rightarrow> False | c # r \<Rightarrow> isAlnum c \<and> list_all (\<lambda>d. isAlnum d \<or> d = 0x2D) r)"

text \<open>\<^verbatim>\<open>[A-Z]{2,}\<close>\<close>

definition top_level :: "jsstring \<Rightarrow> bool" where
  "top_level t = (2 \<le> length t \<and> list_all isAlpha t)"

text \<open>\<^verbatim>\<open>([A-Z0-9][A-Z0-9\-]*\.)+[A-Z]{2,}\<close>\<close>

definition domain_part :: "jsstring \<Rightarrow> bool" where
  "domain_part d =
     (let labels = js_split 0x2E d
      in 2 \<le> length labels \<and> list_all domain_label (butlast labels) \<and> top_level (last labels))"

text \<open>
  \<^verbatim>\<open>(?!.*\.\.)\<close> at the start: the dot of the pattern matches every unit but a line
  terminator, so the lookahead finds two dots in a row only before the first line
  terminator.
\<close>

definition isLineTerminator :: "nat \<Rightarrow> bool" where
  "isLineTerminator c = (c = 0x0A \<or> c = 0x0D \<or> c = 0x2028 \<or> c = 0x2029)"

fun has_dotdot :: "jsstring \<Rightarrow> bool" where
  "has_dotdot (a # b # s) = ((a = 0x2E \<and> b = 0x2E) \<or> has_dotdot (b # s))"
| "has_dotdot s = False"

definition emailRegex :: "jsstring \<Rightarrow> bool" where
  "emailRegex s =
     (\<not> (case s of [] \<Rightarrow> False | c # r \<Rightarrow> c = 0x2E)
      \<and> \<not> has_dotdot (takeWhile (\<lambda>c. \<not> isLineTerminator c) s)
      \<and> (case js_split 0x40 s of
            [l, d] \<Rightarrow> local_part l \<and> domain_part d
          | parts \<Rightarrow> False))"

definition msg_email_invalid :: jsstring where
  "msg_email_invalid = str ''Email inv'' @ [0xE1] @ str ''lido''"

definition msg_email_max :: jsstring where
  "msg_email_max = str ''Email n'' @ [0xE3] @ str ''o pode exceder 255 caracteres''"

definition Email_schema :: "check list" where
  "Email_schema = [(emailRegex, msg_email_invalid), (\<lambda>s. length s \<le> 255, msg_email_max)]"

text \<open>\<^verbatim>\<open>email.trim().toLowerCase()\<close>\<close>

definition cleanEmail :: "jsstring \<Rightarrow> jsstring" where
  "cleanEmail email = toLowerCase (trim email)"

definition Email_new :: "jsstring \<Rightarrow> error + Email" where
  "Email_new email =
     (case safeParse Email_schema (cleanEmail email) of
        ParseFailure errors \<Rightarrow> Inl (Error (first_message errors msg_email_invalid))
      | ParseSuccess data \<Rightarrow> Inr (Email (cleanEmail email)))"

definition Email_raw :: "Email \<Rightarrow> jsstring" where
  "Email_raw e = email_value e"

text \<open>\<^verbatim>\<open>this.value.split('@')[1]\<close> and \<^verbatim>\<open>[0]\<close>; \<open>None\<close> is \<^verbatim>\<open>undefined\<close>.\<close>

definition getDomain :: "Email \<Rightarrow> jsstring option" where
  "getDomain e = at (js_split 0x40 (email_value e)) 1"

definition getUsername :: "Email \<Rightarrow> jsstring option" where
  "getUsername e = at (js_split 0x40 (email_value e)) 0"

definition Email_isValid :: "jsstring \<Rightarrow> bool" where
  "Email_isValid email = success (safeParse Email_schema (cleanEmail email))"

section \<open>FullName\<close>

datatype FullName = FullName (name_value: jsstring)

text \<open>\<^verbatim>\<open>s.replace(/\s+/g, ' ')\<close>: every maximal run of white space becomes one space.\<close>

function replace_spaces :: "jsstring \<Rightarrow> jsstring" where
  "replace_spaces [] = []"
| "replace_spaces (c # s) =
     (if isSpace c then 0x20 # replace_spaces (dropWhile isSpace s)
      else c # replace_spaces s)"
  by pat_completeness auto
termination
  by (relation "measure length") (auto simp: less_Suc_eq_le length_dropWhile_le)

text \<open>
  \<^verbatim>\<open>s.split(/\s+/)\<close>: the pieces between the maximal runs of white space; a string that
  starts or ends with white space has an empty first or last piece.
\<close>

function split_spaces :: "jsstring \<Rightarrow> jsstring list" where
  "split_spaces [] = [[]]"
| "split_spaces (c # s) =
     (if isSpace c then [] # split_spaces (dropWhile isSpace s)
      else (case split_spaces s of
              [] \<Rightarrow> [[c]]
            | p # ps \<Rightarrow> (c # p) # ps))"
  by pat_completeness auto
termination
  by (relation "measure length") (auto simp: less_Suc_eq_le length_dropWhile_le)

text \<open>\<^verbatim>\<open>capitalizeWord\<close>: hyphen first, then apostrophe, then the plain word.\<close>

function capitalizeWord :: "jsstring \<Rightarrow> jsstring" where
  "capitalizeWord word =
     (if 0x2D \<in> set word then
        js_join [0x2D] (map capitalizeWord (js_split 0x2D word))
      else if 0x27 \<in> set word then
        (let apostropheIndex = length (takeWhile (\<lambda>c. c \<noteq> 0x27) word);
             firstPart = take (apostropheIndex + 1) word;
             secondPart = drop (apostropheIndex + 1) word
         in if length secondPart > 0 then firstPart @ capitalizeWord secondPart
            else firstPart)
      else toUpperCase (take 1 word) @ toLowerCase (drop 1 word))"
  by pat_completeness auto
termination
proof (relation "measure length")
  show "wf (measure length)" by simp
next
  fix word :: jsstring and part
  assume "0x2D \<in> set word" and "part \<in> set (js_split 0x2D word)"
  moreover have le: "q \<in> set (js_split sep s) \<Longrightarrow> length q \<le> length s" for sep s q
  proof (induction s arbitrary: q)
    case Nil
    then show ?case by simp
  next
    case (Cons d t)
    show ?case
    proof (cases "d = sep")
      case True
      then show ?thesis using Cons by (auto simp: le_Suc_eq)
    next
      case False
      then show ?thesis using Cons by (cases "js_split sep t") (auto simp: le_SucI)
    qed
  qed
  moreover have "sep \<in> set w \<Longrightarrow> q \<in> set (js_split sep w) \<Longrightarrow> length q < length w" for sep w q
  proof (induction w arbitrary: q)
    case Nil
    then show ?case by simp
  next
    case (Cons c s)
    show ?case
    proof (cases "c = sep")
      case True
      then show ?thesis using Cons.prems le [of _ sep s] by (auto simp: less_Suc_eq_le)
    next
      case False
      then have "sep \<in> set s" using Cons.prems by simp
      then show ?thesis
        using False Cons.prems Cons.IH by (cases "js_split sep s") (auto simp: less_SucI)
    qed
  qed
  ultimately show "(part, word) \<in> measure length" by simp
next
  fix word :: jsstring and x xa xb
  assume "xb = drop (x + 1) word" "0 < length xb"
  then show "(xb, word) \<in> measure length" by auto
qed

declare capitalizeWord.simps [simp del]

definition lowerCaseWords :: "jsstring list" where
  "lowerCaseWords = map str [''de'', ''da'', ''do'', ''das'', ''dos'', ''e'', ''o'', ''a'',
                             ''os'', ''as'', ''em'', ''com'']"

text \<open>The callback of \<^verbatim>\<open>words.map((word, index) => ...)\<close> in \<^verbatim>\<open>normalizeName\<close>.\<close>

definition processWord :: "nat \<Rightarrow> jsstring \<Rightarrow> jsstring" where
  "processWord index word =
     (if index = 0 then capitalizeWord word
      else if toLowerCase word \<in> set lowerCaseWords then toLowerCase word
      else capitalizeWord word)"

definition normalizeName :: "jsstring \<Rightarrow> jsstring" where
  "normalizeName name =
     (let trimmedName = replace_spaces (trim name);
          words = js_split 0x20 trimmedName;
          processedWords = map (\<lambda>(index, word). processWord index word) (enumerate 0 words)
      in js_join [0x20] processedWords)"

definition validSingleCharWords :: "jsstring list" where
  "validSingleCharWords = [str ''e'', str ''o'', str ''a'', [0xE0], [0xE9]]"

text \<open>
  The letters of both patterns of \<^verbatim>\<open>validate\<close>: \<^verbatim>\<open>a-z\<close>, \<^verbatim>\<open>A-Z\<close>, U+00C0 to U+00D6,
  U+00D8 to U+00F6 and U+00F8 to U+00FF.
\<close>

definition isLetter :: "nat \<Rightarrow> bool" where
  "isLetter c = ((0x61 \<le> c \<and> c \<le> 0x7A) \<or> (0x41 \<le> c \<and> c \<le> 0x5A)
                 \<or> (0xC0 \<le> c \<and> c \<le> 0xD6) \<or> (0xD8 \<le> c \<and> c \<le> 0xF6)
                 \<or> (0xF8 \<le> c \<and> c \<le> 0xFF))"

text \<open>The first pattern of the loop: the word starts with a letter.\<close>

definition starts_with_letter :: "jsstring \<Rightarrow> bool" where
  "starts_with_letter word = (case word of [] \<Rightarrow> False | c # r \<Rightarrow> isLetter c)"

text \<open>The second pattern: one or more letters, hyphens and apostrophes, and nothing else.\<close>

definition only_name_units :: "jsstring \<Rightarrow> bool" where
  "only_name_units word =
     (word \<noteq> [] \<and> list_all (\<lambda>c. isLetter c \<or> c = 0x27 \<or> c = 0x2D) word)"

text \<open>The loop \<^verbatim>\<open>for (const word of words)\<close> of \<^verbatim>\<open>validate\<close>, with its three exits.\<close>

fun check_words :: "jsstring list \<Rightarrow> bool" where
  "check_words [] = True"
| "check_words (word # words) =
     (if length word = 1 \<and> toLowerCase word \<notin> set validSingleCharWords then False
      else if \<not> starts_with_letter word then False
      else if \<not> only_name_units word then False
      else check_words words)"

definition FullName_validate :: "jsstring \<Rightarrow> bool" where
  "FullName_validate name =
     (let words = split_spaces (trim name)
      in if length words < 2 then False else check_words words)"

definition msg_name_min :: jsstring where
  "msg_name_min = str ''Nome completo deve ter pelo menos 3 caracteres''"

definition msg_name_max :: jsstring where
  "msg_name_max = str ''Nome completo n'' @ [0xE3] @ str ''o pode exceder 100 caracteres''"

definition msg_name_invalid :: jsstring where
  "msg_name_invalid = str ''Nome completo inv'' @ [0xE1] @ str ''lido''"

definition FullName_schema :: "check list" where
  "FullName_schema = [(\<lambda>s. 3 \<le> length s, msg_name_min), (\<lambda>s. length s \<le> 100, msg_name_max),
                      (FullName_validate, msg_name_invalid)]"

definition FullName_new :: "jsstring \<Rightarrow> error + FullName" where
  "FullName_new name =
     (let cleanName = normalizeName name
      in case safeParse FullName_schema cleanName of
           ParseFailure errors \<Rightarrow> Inl (Error (first_message errors msg_name_invalid))
         | ParseSuccess data \<Rightarrow> Inr (FullName cleanName))"

definition FullName_raw :: "FullName \<Rightarrow> jsstring" where
  "FullName_raw n = name_value n"

text \<open>\<^verbatim>\<open>this.value.split(' ')[0]\<close>\<close>

definition getFirstName :: "FullName \<Rightarrow> jsstring option" where
  "getFirstName n = at (js_split 0x20 (name_value n)) 0"

text \<open>\<^verbatim>\<open>parts[parts.length - 1]\<close>\<close>

definition getLastName :: "FullName \<Rightarrow> jsstring option" where
  "getLastName n = (let parts = js_split 0x20 (name_value n) in at parts (length parts - 1))"

definition FullName_isValid :: "jsstring \<Rightarrow> bool" where
  "FullName_isValid name = success (safeParse FullName_schema (normalizeName name))"

section \<open>EmployeeStatus\<close>

text \<open>
  Modelled from the spec: the enumeration \<^verbatim>\<open>EmployeeStatus\<close>, whose declaration is not
  among the sources (the readme only uses it). It is a closed set of five constants, each
  with a fixed display label.
\<close>

datatype EmployeeStatus = NORMAL | VACATION | DISMISSED | TRANSFERRED | LEAVE

fun label :: "EmployeeStatus \<Rightarrow> jsstring" where
  "label NORMAL = str ''Normal''"
| "label VACATION = str ''F'' @ [0xE9] @ str ''rias''"
| "label DISMISSED = str ''Demitido''"
| "label TRANSFERRED = str ''Transferido''"
| "label LEAVE = str ''Afastado''"

section \<open>Notions used in the statements and proofs\<close>

text \<open>
  The units of Basic Latin and Latin-1 Supplement other than U+00DF, the one unit of that
  range whose upper case is two units.
\<close>

definition isPlainLatin1 :: "nat \<Rightarrow> bool" where
  "isPlainLatin1 c = (c < 0x100 \<and> c \<noteq> 0xDF)"

text \<open>
  The units after which a word or a part of a word starts: white space, the hyphen and the
  apostrophe. \<open>plainInitials True s\<close> says that \<open>s\<close> is made of units up to U+00FF and
  that U+00DF stands neither at its start nor right after one of these units; the flag
  tells whether the string starts where a part starts.
\<close>

definition startsSegment :: "nat \<Rightarrow> bool" where
  "startsSegment c = (isSpace c \<or> c = 0x2D \<or> c = 0x27)"

fun plainInitials :: "bool \<Rightarrow> jsstring \<Rightarrow> bool" where
  "plainInitials first [] = True"
| "plainInitials first (c # s) =
     (c < 0x100 \<and> \<not> (first \<and> c = 0xDF) \<and> plainInitials (startsSegment c) s)"

text \<open>The unit that upper-casing puts for a unit of Latin-1 other than U+00DF.\<close>

definition upper1 :: "nat \<Rightarrow> nat" where
  "upper1 c = (if (0x61 \<le> c \<and> c \<le> 0x7A) \<or> (0xE0 \<le> c \<and> c \<le> 0xF6) \<or> (0xF8 \<le> c \<and> c \<le> 0xFE)
               then c - 32 else if c = 0xB5 then 0x39C else if c = 0xFF then 0x178 else c)"

text \<open>A string that neither starts nor ends with white space.\<close>

definition trimmed :: "jsstring \<Rightarrow> bool" where
  "trimmed s = (s = [] \<or> (\<not> isSpace (hd s) \<and> \<not> isSpace (last s)))"

text \<open>The words of a trimmed string: one empty word, or words that are all non-empty.\<close>

definition wordList :: "jsstring list \<Rightarrow> bool" where
  "wordList ws = ((ws = [[]] \<or> (ws \<noteq> [] \<and> (\<forall>w\<in>set ws. w \<noteq> [])))
                  \<and> (\<forall>w\<in>set ws. \<not> list_ex isSpace w))"

section \<open>Reading a list by index\<close>

lemma at_nth: "i < length xs \<Longrightarrow> at xs i = Some (xs ! i)"
  by (induction xs i rule: at.induct) auto

section \<open>Splitting and joining\<close>

lemma js_split_nonempty: "js_split sep s \<noteq> []"
  by (induction s) (auto split: list.splits)

lemma js_split_no_sep: "p \<in> set (js_split sep s) \<Longrightarrow> sep \<notin> set p"
proof (induction s arbitrary: p)
  case Nil
  then show ?case by simp
next
  case (Cons c s)
  show ?case
  proof (cases "c = sep")
    case True
    then show ?thesis using Cons by auto
  next
    case False
    obtain q qs where q: "js_split sep s = q # qs"
      using js_split_nonempty [of sep s] by (cases "js_split sep s") auto
    then show ?thesis using False Cons by auto
  qed
qed

lemma js_split_without_sep: "sep \<notin> set s \<Longrightarrow> js_split sep s = [s]"
  by (induction s) auto

lemma js_split_at_sep:
  "sep \<notin> set l \<Longrightarrow> js_split sep (l @ sep # d) = l # js_split sep d"
  by (induction l) auto

lemma js_join_split: "js_join [sep] (js_split sep s) = s"
proof (induction s)
  case Nil
  then show ?case by simp
next
  case (Cons c s)
  obtain q qs where q: "js_split sep s = q # qs"
    using js_split_nonempty [of sep s] by (cases "js_split sep s") auto
  show ?case
  proof (cases "c = sep")
    case True
    then show ?thesis using Cons q by simp
  next
    case False
    then show ?thesis using Cons q by (cases qs) auto
  qed
qed

lemma js_split_two:
  assumes "js_split sep s = [l, d]"
  shows "s = l @ [sep] @ d" and "sep \<notin> set l" and "sep \<notin> set d"
proof -
  show "s = l @ [sep] @ d"
    using js_join_split [of sep s] assms by simp
  show "sep \<notin> set l" "sep \<notin> set d"
    using js_split_no_sep [of _ sep s] assms by simp_all
qed

lemma js_split_subset: "p \<in> set (js_split sep s) \<Longrightarrow> set p \<subseteq> set s"
proof (induction s arbitrary: p)
  case Nil
  then show ?case by simp
next
  case (Cons c s)
  obtain q qs where q: "js_split sep s = q # qs"
    using js_split_nonempty [of sep s] by (cases "js_split sep s") auto
  show ?case
  proof (cases "c = sep")
    case True
    then show ?thesis using Cons by auto
  next
    case False
    then show ?thesis using Cons.prems Cons.IH [of q] Cons.IH [of p] q by auto
  qed
qed

lemma js_split_length: "sep \<in> set s \<Longrightarrow> 2 \<le> length (js_split sep s)"
proof (induction s)
  case Nil
  then show ?case by simp
next
  case (Cons c s)
  obtain q qs where q: "js_split sep s = q # qs"
    using js_split_nonempty [of sep s] by (cases "js_split sep s") auto
  show ?case using Cons q by (cases "c = sep") auto
qed

lemma js_join_Cons:
  "ps \<noteq> [] \<Longrightarrow> js_join [sep] (p # ps) = p @ sep # js_join [sep] ps"
  by (cases ps) simp_all

lemma js_join_Cons_Cons: "js_join sep ((c # p) # ps) = c # js_join sep (p # ps)"
  by (cases ps) simp_all

lemma js_split_join:
  "ps \<noteq> [] \<Longrightarrow> \<forall>p\<in>set ps. sep \<notin> set p \<Longrightarrow> js_split sep (js_join [sep] ps) = ps"
proof (induction ps)
  case Nil
  then show ?case by simp
next
  case (Cons p ps)
  show ?case
  proof (cases "ps = []")
    case True
    then show ?thesis using Cons.prems by (simp add: js_split_without_sep)
  next
    case False
    then show ?thesis
      using Cons by (simp add: js_join_Cons js_split_at_sep)
  qed
qed

lemma js_join_has_sep:
  assumes "2 \<le> length ps"
  shows "sep \<in> set (js_join [sep] ps)"
proof -
  obtain p q rest where "ps = p # q # rest"
    using assms by (cases ps; cases "tl ps") auto
  then show ?thesis by simp
qed

lemma set_js_join: "set (js_join [sep] ps) \<subseteq> insert sep (\<Union>p\<in>set ps. set p)"
  by (induction "[sep]" ps rule: js_join.induct) auto

section \<open>CPF: the check digits\<close>

lemma digit_at:
  "list_all isDigit c \<Longrightarrow> i < length c \<Longrightarrow>
   Option.bind (at (map parseInt c) i) id = Some (digit_values c ! i)"
  by (simp add: at_nth parseInt_def digit_values_def list_all_length)

lemma soma_digits:
  "list_all isDigit c \<Longrightarrow> n \<le> length c \<Longrightarrow>
   soma (map parseInt c) n w = Some (\<Sum>i\<leftarrow>[0..<n]. digit_values c ! i * (w - i))"
proof (induction n)
  case 0
  then show ?case by (simp add: soma_def)
next
  case (Suc n)
  then have "soma (map parseInt c) n w = Some (\<Sum>i\<leftarrow>[0..<n]. digit_values c ! i * (w - i))"
    by simp
  moreover have "Option.bind (at (map parseInt c) n) id = Some (digit_values c ! n)"
    using Suc.prems by (simp add: digit_at)
  ultimately show ?case
    by (simp add: soma_def num_add_def num_mul_def)
qed

lemma resto_spec:
  "list_all isDigit c \<Longrightarrow> n \<le> length c \<Longrightarrow>
   resto (soma (map parseInt c) n (Suc n)) = Some (spec_check_digit (digit_values c) n)"
  by (simp add: soma_digits resto_def spec_check_digit_def Let_def)

lemma repeated_digit_identical:
  assumes "list_all isDigit c" "length c = 11"
  shows "repeated_digit c \<longleftrightarrow> all_identical (digit_values c)"
proof -
  obtain d rest where c: "c = d # rest" using assms(2) by (cases c) auto
  have len: "length rest = 10" using assms(2) c by simp
  have dig: "\<forall>x\<in>set (d # rest). 48 \<le> x"
    using assms(1) c by (auto simp: list_all_iff isDigit_def)
  have "rest = replicate 10 d \<longleftrightarrow> (\<forall>x\<in>set rest. x = d)"
    using len by (metis replicate_eqI in_set_replicate)
  also have "\<dots> \<longleftrightarrow> (\<forall>x\<in>set rest. x - 48 = d - 48)"
    using dig by (auto simp: eq_diff_iff)
  finally show ?thesis
    using assms(1) c by (auto simp: repeated_digit_def all_identical_def digit_values_def list_all_iff)
qed

text \<open>
  Claim C1. For an input that holds eleven digits once its other characters are stripped,
  the constructor of CPF succeeds exactly when the digits are not all the same and both
  check digits are right: the first is the sum of \<open>digit[i] * (10 - i)\<close> for \<open>i\<close> from 0 to
  8, times 10, modulo 11, with 10 read as 0, and equals \<open>digit[9]\<close>; the second is the same
  with the weights \<open>11 - i\<close> for \<open>i\<close> from 0 to 9, and equals \<open>digit[10]\<close>.
\<close>

theorem CPF_new_checksum:
  assumes "length (strip_non_digits x) = 11"
  shows "(\<exists>cpf. CPF_new x = Inr cpf) \<longleftrightarrow>
         (let ds = digit_values (strip_non_digits x)
          in \<not> all_identical ds \<and> spec_check_digit ds 9 = ds ! 9
             \<and> spec_check_digit ds 10 = ds ! 10)"
proof -
  define c where "c = strip_non_digits x"
  have dig: "list_all isDigit c"
    by (simp add: c_def strip_non_digits_def list_all_iff)
  have len: "length c = 11" using assms by (simp add: c_def)
  have e: "eleven_digits c" by (simp add: eleven_digits_def dig len)
  have r1: "resto (soma (map parseInt c) 9 10) = Some (spec_check_digit (digit_values c) 9)"
    using resto_spec [OF dig, of 9] len by simp
  have r2: "resto (soma (map parseInt c) 10 11) = Some (spec_check_digit (digit_values c) 10)"
    using resto_spec [OF dig, of 10] len by simp
  have d9: "Option.bind (at (map parseInt c) 9) id = Some (digit_values c ! 9)"
    using digit_at [OF dig, of 9] len by simp
  have d10: "Option.bind (at (map parseInt c) 10) id = Some (digit_values c ! 10)"
    using digit_at [OF dig, of 10] len by simp
  have v: "CPF_validate c \<longleftrightarrow>
           \<not> all_identical (digit_values c)
           \<and> spec_check_digit (digit_values c) 9 = digit_values c ! 9
           \<and> spec_check_digit (digit_values c) 10 = digit_values c ! 10"
    by (simp add: CPF_validate_def Let_def r1 r2 d9 d10 num_eq_def
          repeated_digit_identical [OF dig len])
  have "(\<exists>cpf. CPF_new x = Inr cpf) \<longleftrightarrow> CPF_validate c"
    using e by (simp add: CPF_new_def Let_def c_def [symmetric] safeParse_def issues_def
          CPF_schema_def)
  then show ?thesis
    using v unfolding c_def Let_def by simp
qed

theorem CPF_new_checksum_witness:
  "length (strip_non_digits (str ''529.982.247-25'')) = 11 \<and>
   (\<exists>cpf. CPF_new (str ''529.982.247-25'') = Inr cpf)"
proof -
  have h: "length (strip_non_digits (str ''529.982.247-25'')) = 11" by code_simp
  have "let ds = digit_values (strip_non_digits (str ''529.982.247-25''))
        in \<not> all_identical ds \<and> spec_check_digit ds 9 = ds ! 9
           \<and> spec_check_digit ds 10 = ds ! 10"
    by code_simp
  with CPF_new_checksum [OF h] h show ?thesis by blast
qed

section \<open>The static predicates\<close>

text \<open>
  Claim C2. For each of CPF, Email and FullName, and every input, \<open>isValid\<close> returns true
  exactly when the constructor does not throw.
\<close>

theorem isValid_iff_constructor:
  "(CPF_isValid x \<longleftrightarrow> (\<exists>cpf. CPF_new x = Inr cpf))
   \<and> (Email_isValid x \<longleftrightarrow> (\<exists>email. Email_new x = Inr email))
   \<and> (FullName_isValid x \<longleftrightarrow> (\<exists>name. FullName_new x = Inr name))"
proof (intro conjI)
  show "CPF_isValid x \<longleftrightarrow> (\<exists>cpf. CPF_new x = Inr cpf)"
    by (cases "safeParse CPF_schema (strip_non_digits x)")
       (simp_all add: CPF_isValid_def CPF_new_def)
  show "Email_isValid x \<longleftrightarrow> (\<exists>email. Email_new x = Inr email)"
    by (cases "safeParse Email_schema (cleanEmail x)")
       (simp_all add: Email_isValid_def Email_new_def)
  show "FullName_isValid x \<longleftrightarrow> (\<exists>name. FullName_new x = Inr name)"
    by (cases "safeParse FullName_schema (normalizeName x)")
       (simp_all add: FullName_isValid_def FullName_new_def)
qed

section \<open>Email: the messages of a failed construction\<close>

lemma Email_issues:
  "issues Email_schema s =
     (if emailRegex s then [] else [msg_email_invalid])
     @ (if length s \<le> 255 then [] else [msg_email_max])"
  by (simp add: issues_def Email_schema_def)

lemma msg_email_invalid_nonempty: "msg_email_invalid \<noteq> []"
  by (simp add: msg_email_invalid_def str_def)

lemma msg_email_max_nonempty: "msg_email_max \<noteq> []"
  by (simp add: msg_email_max_def str_def)

text \<open>
  Claim C3, as stated, says that a failed Email construction always carries the message
  \<open>msg_email_invalid\<close> (the text "Email invalido", with an acute accent on its first a).
  It does not: an address of 250 letters \<open>a\<close> followed by \<open>@b.com\<close> matches the
  pattern, is 256 units long, and fails with the message of the length check.
\<close>

theorem Email_long_address_message:
  "Email_new (replicate 250 0x61 @ str ''@b.com'') = Inl (Error msg_email_max)
   \<and> msg_email_max \<noteq> msg_email_invalid"
  by code_simp

text \<open>
  Claim C3, amended. A failed Email construction carries \<open>msg_email_invalid\<close> when the
  trimmed, lower-cased input does not match the address pattern, and \<open>msg_email_max\<close>
  (the text of the length check, "Email nao pode exceder 255 caracteres" with a tilde on
  the a of its second word) when it matches the pattern and is longer than 255 units; it
  carries no other message.
\<close>

theorem Email_failure_messages:
  assumes "Email_new x = Inl err"
  shows "(\<not> emailRegex (cleanEmail x) \<and> message err = msg_email_invalid)
         \<or> (emailRegex (cleanEmail x) \<and> 255 < length (cleanEmail x)
            \<and> message err = msg_email_max)"
  using assms
  by (auto simp: Email_new_def safeParse_def Email_issues msg_email_invalid_nonempty
        msg_email_max_nonempty split: if_splits)

theorem Email_failure_messages_witness:
  "Email_new (str ''teste@'') = Inl (Error msg_email_invalid)
   \<and> \<not> emailRegex (cleanEmail (str ''teste@''))
   \<and> message (Error msg_email_invalid) = msg_email_invalid"
proof -
  have h: "Email_new (str ''teste@'') = Inl (Error msg_email_invalid)" by code_simp
  have n: "\<not> emailRegex (cleanEmail (str ''teste@''))" by code_simp
  from Email_failure_messages [OF h] h n show ?thesis by simp
qed

section \<open>Email: grammar and accessors\<close>

lemma Email_new_value:
  assumes "Email_new x = Inr e"
  shows "email_value e = cleanEmail x" and "emailRegex (email_value e)"
    and "length (email_value e) \<le> 255"
proof -
  have ok: "issues Email_schema (cleanEmail x) = []" and v: "e = Email (cleanEmail x)"
    using assms by (auto simp: Email_new_def safeParse_def split: if_splits)
  show "email_value e = cleanEmail x" using v by simp
  show "emailRegex (email_value e)" "length (email_value e) \<le> 255"
    using ok v by (auto simp: issues_def Email_schema_def split: if_splits)
qed

lemma emailRegex_parts:
  assumes "emailRegex s"
  obtains l d where "js_split 0x40 s = [l, d]" "local_part l" "domain_part d"
proof -
  from assms have "case js_split 0x40 s of [] \<Rightarrow> False | [l] \<Rightarrow> False
      | [l, d] \<Rightarrow> local_part l \<and> domain_part d | l # d # r # rs \<Rightarrow> False"
    by (simp add: emailRegex_def)
  then show ?thesis
    using that by (auto split: list.splits)
qed

lemma domain_part_has_dot:
  assumes "domain_part d"
  shows "0x2E \<in> set d"
proof (rule ccontr)
  assume "0x2E \<notin> set d"
  then have "js_split 0x2E d = [d]" by (rule js_split_without_sep)
  then show False using assms by (simp add: domain_part_def)
qed

lemma js_join_snoc:
  "js_join [sep] (ls @ [t]) = concat (map (\<lambda>x. x @ [sep]) ls) @ t"
proof (induction ls)
  case Nil
  then show ?case by simp
next
  case (Cons l ls)
  then show ?case by (simp add: js_join_Cons)
qed

lemma local_unit_no_at: "local_unit c \<Longrightarrow> c \<noteq> 0x40"
  by (auto simp: local_unit_def isAlnum_def isAlpha_def isDigit_def)

lemma local_last_unit: "local_last c \<Longrightarrow> local_unit c"
  by (auto simp: local_unit_def local_last_def)

lemma domain_label_units:
  assumes "domain_label l"
  shows "0x2E \<notin> set l" and "0x40 \<notin> set l"
proof -
  obtain c r where l: "l = c # r" "isAlnum c" "list_all (\<lambda>d. isAlnum d \<or> d = 0x2D) r"
    using assms by (cases l) (auto simp: domain_label_def)
  have "\<And>d. isAlnum d \<or> d = 0x2D \<Longrightarrow> d \<noteq> 0x2E \<and> d \<noteq> 0x40"
    by (auto simp: isAlnum_def isAlpha_def isDigit_def)
  then show "0x2E \<notin> set l" and "0x40 \<notin> set l"
    using l by (auto simp: list_all_iff)
qed

lemma top_level_units:
  assumes "top_level t"
  shows "0x2E \<notin> set t" and "0x40 \<notin> set t"
  using assms by (auto simp: top_level_def list_all_iff isAlpha_def)

text \<open>
  The strings the address pattern matches, read off the pattern: a run of local units and
  one last local unit, \<open>@\<close>, one or more labels each followed by a dot, and a top level;
  and the two lookaheads.
\<close>

lemma emailRegex_language:
  "emailRegex s \<longleftrightarrow>
     (\<exists>l c ls t. s = l @ [c] @ [0x40] @ concat (map (\<lambda>x. x @ [0x2E]) ls) @ t
        \<and> list_all local_unit l \<and> local_last c
        \<and> ls \<noteq> [] \<and> list_all domain_label ls \<and> top_level t)
     \<and> \<not> (case s of [] \<Rightarrow> False | c # r \<Rightarrow> c = 0x2E)
     \<and> \<not> has_dotdot (takeWhile (\<lambda>c. \<not> isLineTerminator c) s)"
proof -
  have "(\<exists>l d. js_split 0x40 s = [l, d] \<and> local_part l \<and> domain_part d) \<longleftrightarrow>
        (\<exists>l c ls t. s = l @ [c] @ [0x40] @ concat (map (\<lambda>x. x @ [0x2E]) ls) @ t
           \<and> list_all local_unit l \<and> local_last c
           \<and> ls \<noteq> [] \<and> list_all domain_label ls \<and> top_level t)"
    (is "?split \<longleftrightarrow> ?lang")
  proof
    assume ?split
    then obtain l d where ld: "js_split 0x40 s = [l, d]" and lp: "local_part l"
      and dp: "domain_part d" by blast
    define labels where "labels = js_split 0x2E d"
    have lab: "2 \<le> length labels" "list_all domain_label (butlast labels)"
      "top_level (last labels)"
      using dp by (simp_all add: domain_part_def labels_def Let_def)
    then have ne: "labels \<noteq> []" by auto
    have "d = js_join [0x2E] (butlast labels @ [last labels])"
      using ne by (simp add: labels_def js_join_split)
    then have d: "d = concat (map (\<lambda>x. x @ [0x2E]) (butlast labels)) @ last labels"
      by (simp only: js_join_snoc)
    have "l \<noteq> []" using lp by (simp add: local_part_def)
    then have "s = butlast l @ [last l] @ [0x40] @ d"
      using js_split_two(1) [OF ld] by simp
    moreover have "butlast labels \<noteq> []"
      using lab(1) by (cases labels rule: rev_cases) auto
    ultimately show ?lang
      using lp lab d by (auto simp: local_part_def)
  next
    assume ?lang
    then obtain l c ls t where s: "s = l @ [c] @ [0x40] @ concat (map (\<lambda>x. x @ [0x2E]) ls) @ t"
      and l: "list_all local_unit l" and c: "local_last c" and ne: "ls \<noteq> []"
      and ls: "list_all domain_label ls" and t: "top_level t" by blast
    define d where "d = concat (map (\<lambda>x. x @ [0x2E]) ls) @ t"
    have "0x40 \<notin> set (l @ [c])"
      using l c local_unit_no_at local_last_unit by (auto simp: list_all_iff)
    moreover have "0x40 \<notin> set d"
      using ls t domain_label_units(2) top_level_units(2) by (auto simp: d_def list_all_iff)
    ultimately have sp: "js_split 0x40 s = [l @ [c], d]"
      using js_split_at_sep [of "0x40" "l @ [c]" d] by (simp add: s d_def js_split_without_sep)
    have "d = js_join [0x2E] (ls @ [t])" by (simp only: js_join_snoc d_def)
    moreover have "\<forall>p\<in>set (ls @ [t]). 0x2E \<notin> set p"
      using ls t domain_label_units(1) top_level_units(1) by (auto simp: list_all_iff)
    ultimately have "js_split 0x2E d = ls @ [t]" by (simp add: js_split_join)
    then have "domain_part d"
      using ne ls t by (cases ls) (simp_all add: domain_part_def)
    moreover have "local_part (l @ [c])"
      using l c by (simp add: local_part_def)
    ultimately show ?split using sp by blast
  qed
  moreover have "(case js_split 0x40 s of [l, d] \<Rightarrow> local_part l \<and> domain_part d | _ \<Rightarrow> False)
                 \<longleftrightarrow> ?split"
    by (auto split: list.splits)
  ultimately show ?thesis
    unfolding emailRegex_def by blast
qed

text \<open>
  Claim C7. The constructor of Email succeeds exactly when the trimmed, lower-cased input
  matches the address pattern and is at most 255 units long; and a string that matches
  the pattern is a non-empty local part, \<open>@\<close>, and a domain that holds a dot.
\<close>

theorem Email_new_iff_grammar:
  "((\<exists>e. Email_new x = Inr e)
      \<longleftrightarrow> emailRegex (cleanEmail x) \<and> length (cleanEmail x) \<le> 255)
   \<and> (emailRegex (cleanEmail x)
      \<longrightarrow> (\<exists>l d. cleanEmail x = l @ [0x40] @ d \<and> l \<noteq> [] \<and> 0x2E \<in> set d))"
proof
  show "(\<exists>e. Email_new x = Inr e)
          \<longleftrightarrow> emailRegex (cleanEmail x) \<and> length (cleanEmail x) \<le> 255"
    by (auto simp: Email_new_def safeParse_def Email_issues split: if_splits)
  show "emailRegex (cleanEmail x)
          \<longrightarrow> (\<exists>l d. cleanEmail x = l @ [0x40] @ d \<and> l \<noteq> [] \<and> 0x2E \<in> set d)"
  proof
    assume "emailRegex (cleanEmail x)"
    then obtain l d where ld: "js_split 0x40 (cleanEmail x) = [l, d]"
      and lp: "local_part l" and dp: "domain_part d"
      by (rule emailRegex_parts)
    have "cleanEmail x = l @ [0x40] @ d" using js_split_two(1) [OF ld] .
    moreover have "l \<noteq> []" using lp by (simp add: local_part_def)
    ultimately show "\<exists>l d. cleanEmail x = l @ [0x40] @ d \<and> l \<noteq> [] \<and> 0x2E \<in> set d"
      using domain_part_has_dot [OF dp] by blast
  qed
qed

theorem Email_new_iff_grammar_witness:
  "emailRegex (cleanEmail (str '' Teste@Exemplo.Com ''))
   \<and> (\<exists>e. Email_new (str '' Teste@Exemplo.Com '') = Inr e)
   \<and> (\<exists>l d. cleanEmail (str '' Teste@Exemplo.Com '') = l @ [0x40] @ d \<and> l \<noteq> [] \<and> 0x2E \<in> set d)"
proof -
  have h: "emailRegex (cleanEmail (str '' Teste@Exemplo.Com ''))" by code_simp
  have n: "length (cleanEmail (str '' Teste@Exemplo.Com '')) \<le> 255" by code_simp
  from Email_new_iff_grammar [of "str '' Teste@Exemplo.Com ''"] h n show ?thesis by blast
qed

text \<open>
  Claim C6. For a constructed Email, \<open>getUsername\<close> returns what stands before the first
  \<open>@\<close> of the stored value and \<open>getDomain\<close> what stands after it, so that the username,
  \<open>@\<close> and the domain make up the stored value.
\<close>

theorem Email_accessors_partition:
  assumes "Email_new x = Inr e"
  shows "0x40 \<in> set (Email_raw e)
         \<and> getUsername e = Some (takeWhile (\<lambda>c. c \<noteq> 0x40) (Email_raw e))
         \<and> getDomain e = Some (drop 1 (dropWhile (\<lambda>c. c \<noteq> 0x40) (Email_raw e)))
         \<and> takeWhile (\<lambda>c. c \<noteq> 0x40) (Email_raw e) @ [0x40]
             @ drop 1 (dropWhile (\<lambda>c. c \<noteq> 0x40) (Email_raw e)) = Email_raw e"
proof -
  obtain l d where ld: "js_split 0x40 (email_value e) = [l, d]"
    using Email_new_value(2) [OF assms] by (rule emailRegex_parts)
  have v: "email_value e = l @ [0x40] @ d" and l: "0x40 \<notin> set l"
    using js_split_two [OF ld] by simp_all
  have t: "takeWhile (\<lambda>c. c \<noteq> 0x40) (email_value e) = l"
    using l by (simp add: v takeWhile_append)
  have dr: "dropWhile (\<lambda>c. c \<noteq> 0x40) (email_value e) = 0x40 # d"
    using l by (simp add: v dropWhile_append)
  show ?thesis
    using ld by (simp add: Email_raw_def getUsername_def getDomain_def t dr) (simp add: v)
qed

theorem Email_accessors_partition_witness:
  "Email_new (str ''Usuario.Teste@dominio.com.br'')
     = Inr (Email (str ''usuario.teste@dominio.com.br''))
   \<and> getUsername (Email (str ''usuario.teste@dominio.com.br'')) = Some (str ''usuario.teste'')
   \<and> getDomain (Email (str ''usuario.teste@dominio.com.br'')) = Some (str ''dominio.com.br'')"
proof -
  have h: "Email_new (str ''Usuario.Teste@dominio.com.br'')
             = Inr (Email (str ''usuario.teste@dominio.com.br''))"
    by code_simp
  have t: "takeWhile (\<lambda>c. c \<noteq> 0x40) (Email_raw (Email (str ''usuario.teste@dominio.com.br'')))
             = str ''usuario.teste''"
    by code_simp
  have d: "drop 1 (dropWhile (\<lambda>c. c \<noteq> 0x40)
             (Email_raw (Email (str ''usuario.teste@dominio.com.br'')))) = str ''dominio.com.br''"
    by code_simp
  from Email_accessors_partition [OF h] h t d show ?thesis by simp
qed

text \<open>
  Claim C9. The stored value of a constructed Email holds exactly one \<open>@\<close>; the username
  and the domain are both defined and non-empty, and neither holds an \<open>@\<close>.
\<close>

theorem Email_single_at:
  assumes "Email_new x = Inr e"
  shows "count_list (Email_raw e) 0x40 = 1
         \<and> (\<exists>u d. getUsername e = Some u \<and> getDomain e = Some d
                \<and> u \<noteq> [] \<and> d \<noteq> [] \<and> 0x40 \<notin> set u \<and> 0x40 \<notin> set d)"
proof -
  obtain l d where ld: "js_split 0x40 (email_value e) = [l, d]"
    and lp: "local_part l" and dp: "domain_part d"
    using Email_new_value(2) [OF assms] by (rule emailRegex_parts)
  have v: "email_value e = l @ [0x40] @ d" and l: "0x40 \<notin> set l" and d: "0x40 \<notin> set d"
    using js_split_two [OF ld] by simp_all
  have "count_list (Email_raw e) 0x40 = 1"
    using l d by (simp add: Email_raw_def v count_list_0_iff)
  moreover have "l \<noteq> []" using lp by (simp add: local_part_def)
  moreover have "d \<noteq> []" using domain_part_has_dot [OF dp] by auto
  ultimately show ?thesis
    using ld l d by (simp add: getUsername_def getDomain_def)
qed

theorem Email_single_at_witness:
  "Email_new (str ''teste@exemplo.com'') = Inr (Email (str ''teste@exemplo.com''))
   \<and> count_list (Email_raw (Email (str ''teste@exemplo.com''))) 0x40 = 1"
proof -
  have h: "Email_new (str ''teste@exemplo.com'') = Inr (Email (str ''teste@exemplo.com''))"
    by code_simp
  from Email_single_at [OF h] h show ?thesis by simp
qed

section \<open>EmployeeStatus: the constants and their labels\<close>

text \<open>
  Claim C4. EmployeeStatus has exactly the five constants NORMAL, VACATION, DISMISSED,
  TRANSFERRED and LEAVE, with the labels "Normal", "Ferias" (with an acute accent on its
  e, the unit U+00E9), "Demitido", "Transferido" and "Afastado"; the labels differ from
  one another, so a label identifies its constant.
\<close>

theorem EmployeeStatus_labels:
  "label NORMAL = str ''Normal''
   \<and> label VACATION = str ''F'' @ [0xE9] @ str ''rias''
   \<and> label DISMISSED = str ''Demitido''
   \<and> label TRANSFERRED = str ''Transferido''
   \<and> label LEAVE = str ''Afastado''
   \<and> (UNIV :: EmployeeStatus set) = {NORMAL, VACATION, DISMISSED, TRANSFERRED, LEAVE}
   \<and> distinct (map label [NORMAL, VACATION, DISMISSED, TRANSFERRED, LEAVE])"
proof -
  have "(UNIV :: EmployeeStatus set) = {NORMAL, VACATION, DISMISSED, TRANSFERRED, LEAVE}"
  proof (intro equalityI subsetI)
    fix s :: EmployeeStatus
    show "s \<in> {NORMAL, VACATION, DISMISSED, TRANSFERRED, LEAVE}" by (cases s) simp_all
  qed simp
  moreover have "distinct (map label [NORMAL, VACATION, DISMISSED, TRANSFERRED, LEAVE])"
    by (simp add: str_def)
  ultimately show ?thesis by simp
qed

section \<open>Case conversion of the Latin-1 units\<close>

lemma upper_unit_upper1: "isPlainLatin1 c \<Longrightarrow> upper_unit c = [upper1 c]"
  by (simp add: upper_unit_def upper1_def isPlainLatin1_def; arith)

lemma upper_unit_fixed:
  "c < 0x61 \<or> (0x7A < c \<and> c < 0xB5) \<or> (0xB5 < c \<and> c < 0xDF) \<or> c = 0xF7 \<or> c = 0x178 \<or> c = 0x39C
   \<Longrightarrow> upper_unit c = [c]"
  by (auto simp: upper_unit_def)

lemma upper1_range:
  assumes "isPlainLatin1 c"
  shows "upper1 c < 0x61 \<or> (0x7A < upper1 c \<and> upper1 c < 0xB5) \<or> (0xB5 < upper1 c \<and> upper1 c < 0xDF)
         \<or> upper1 c = 0xF7 \<or> upper1 c = 0x178 \<or> upper1 c = 0x39C"
proof -
  consider "0x61 \<le> c \<and> c \<le> 0x7A" | "0xE0 \<le> c \<and> c \<le> 0xF6" | "0xF8 \<le> c \<and> c \<le> 0xFE"
    | "c = 0xB5" | "c = 0xFF" | "c = 0xF7"
    | "c < 0x61 \<or> (0x7A < c \<and> c < 0xB5) \<or> (0xB5 < c \<and> c < 0xDF)"
    using assms unfolding isPlainLatin1_def by arith
  then show ?thesis
  proof cases
    case 1
    then have "upper1 c = c - 32" by (simp add: upper1_def)
    then show ?thesis using 1 by arith
  next
    case 2
    then have "upper1 c = c - 32" by (simp add: upper1_def)
    then show ?thesis using 2 by arith
  next
    case 3
    then have "upper1 c = c - 32" by (simp add: upper1_def)
    then show ?thesis using 3 by arith
  next
    case 4
    then show ?thesis by (simp add: upper1_def)
  next
    case 5
    then show ?thesis by (simp add: upper1_def)
  next
    case 6
    then show ?thesis by (simp add: upper1_def)
  next
    case 7
    then have "upper1 c = c" by (auto simp: upper1_def)
    then show ?thesis using 7 by auto
  qed
qed

lemma upper1_idem: "isPlainLatin1 c \<Longrightarrow> upper_unit (upper1 c) = [upper1 c]"
  by (rule upper_unit_fixed) (rule upper1_range)

lemma upper1_hyphen: "upper1 c = 0x2D \<longleftrightarrow> c = 0x2D"
  by (simp add: upper1_def; arith)

lemma upper1_apostrophe: "upper1 c = 0x27 \<longleftrightarrow> c = 0x27"
  by (simp add: upper1_def; arith)

lemma upper1_not_space: "\<not> isSpace c \<Longrightarrow> \<not> isSpace (upper1 c)"
  by (simp add: upper1_def isSpace_def; arith)

lemma lower_upper1: "isPlainLatin1 c \<Longrightarrow> lower_unit (upper1 c) = lower_unit c \<or> lower_unit (upper1 c) = 0x3BC"
  by (simp add: upper1_def lower_unit_def isPlainLatin1_def; arith)

lemma lower_unit_idem: "lower_unit (lower_unit c) = lower_unit c"
  by (simp add: lower_unit_def)

lemma lower_unit_hyphen: "lower_unit c = 0x2D \<longleftrightarrow> c = 0x2D"
  by (auto simp: lower_unit_def split: if_splits)

lemma lower_unit_apostrophe: "lower_unit c = 0x27 \<longleftrightarrow> c = 0x27"
  by (auto simp: lower_unit_def split: if_splits)

lemma lower_unit_space: "isSpace (lower_unit c) \<longleftrightarrow> isSpace c"
  by (auto simp: lower_unit_def isSpace_def split: if_splits)

lemma toLowerCase_idem: "toLowerCase (toLowerCase w) = toLowerCase w"
  by (simp add: toLowerCase_def lower_unit_idem)

lemma toLowerCase_hyphen: "0x2D \<in> set (toLowerCase w) \<longleftrightarrow> 0x2D \<in> set w"
  by (auto simp: toLowerCase_def lower_unit_hyphen image_iff)

lemma toLowerCase_apostrophe: "0x27 \<in> set (toLowerCase w) \<longleftrightarrow> 0x27 \<in> set w"
  by (auto simp: toLowerCase_def lower_unit_apostrophe image_iff)

lemma toLowerCase_space: "list_ex isSpace (toLowerCase w) \<longleftrightarrow> list_ex isSpace w"
  by (simp add: toLowerCase_def list_ex_iff lower_unit_space)

section \<open>White space\<close>

lemma last_dropWhile: "dropWhile P xs \<noteq> [] \<Longrightarrow> last (dropWhile P xs) = last xs"
  by (induction xs) (auto split: if_splits)

lemma trimmed_trim: "trimmed (trim s)"
proof -
  define a where "a = dropWhile isSpace s"
  define b where "b = dropWhile isSpace (rev a)"
  show ?thesis
  proof (cases "b = []")
    case True
    then show ?thesis by (simp add: trimmed_def trim_def a_def b_def)
  next
    case False
    then have 1: "\<not> isSpace (hd b)" unfolding b_def by (rule hd_dropWhile)
    have "a \<noteq> []" using False by (auto simp: b_def)
    then have "\<not> isSpace (hd a)" unfolding a_def by (rule hd_dropWhile)
    moreover have "last b = last (rev a)" using False unfolding b_def by (rule last_dropWhile)
    ultimately have 2: "\<not> isSpace (last b)" using \<open>a \<noteq> []\<close> by (simp add: last_rev)
    have "trim s = rev b" by (simp add: trim_def a_def b_def)
    then show ?thesis using False 1 2 by (simp add: trimmed_def hd_rev last_rev)
  qed
qed

lemma trim_trimmed:
  assumes "trimmed s"
  shows "trim s = s"
proof (cases "s = []")
  case True
  then show ?thesis by (simp add: trim_def)
next
  case False
  then have h: "\<not> isSpace (hd s)" and l: "\<not> isSpace (last s)"
    using assms by (simp_all add: trimmed_def)
  have "dropWhile isSpace s = s" using h False by (cases s) auto
  moreover have "dropWhile isSpace (rev s) = rev s"
    using l False by (cases "rev s") (auto simp: last_rev [symmetric] hd_rev)
  ultimately show ?thesis by (simp add: trim_def)
qed

lemma split_spaces_nonempty: "split_spaces s \<noteq> []"
  by (induction s rule: split_spaces.induct) (auto split: list.splits)

lemma split_spaces_pieces:
  "p \<in> set (split_spaces s) \<Longrightarrow> \<not> list_ex isSpace p \<and> set p \<subseteq> set s"
proof (induction s arbitrary: p rule: split_spaces.induct)
  case 1
  then show ?case by simp
next
  case (2 c s)
  show ?case
  proof (cases "isSpace c")
    case True
    then have "p = [] \<or> p \<in> set (split_spaces (dropWhile isSpace s))"
      using "2.prems" by auto
    then show ?thesis
      using "2.IH"(1) [OF True] by (auto dest: set_dropWhileD)
  next
    case False
    obtain q qs where q: "split_spaces s = q # qs"
      using split_spaces_nonempty [of s] by (cases "split_spaces s") auto
    then have "p = c # q \<or> p \<in> set qs" using "2.prems" False by auto
    then show ?thesis
      using "2.IH"(2) [OF False, of q] "2.IH"(2) [OF False, of p] q False by auto
  qed
qed

lemma replace_spaces_join: "replace_spaces s = js_join [0x20] (split_spaces s)"
proof (induction s rule: replace_spaces.induct)
  case 1
  then show ?case by simp
next
  case (2 c s)
  show ?case
  proof (cases "isSpace c")
    case True
    then show ?thesis
      using "2.IH"(1) by (simp add: js_join_Cons split_spaces_nonempty)
  next
    case False
    obtain q qs where q: "split_spaces s = q # qs"
      using split_spaces_nonempty [of s] by (cases "split_spaces s") auto
    then show ?thesis
      using False "2.IH"(2) by (simp add: js_join_Cons_Cons)
  qed
qed

lemma split_spaces_hd: "hd (split_spaces s) = takeWhile (\<lambda>c. \<not> isSpace c) s"
proof (induction s rule: split_spaces.induct)
  case 1
  then show ?case by simp
next
  case (2 c s)
  obtain q qs where q: "split_spaces s = q # qs"
    using split_spaces_nonempty [of s] by (cases "split_spaces s") auto
  show ?case using 2 q by (cases "isSpace c") auto
qed

lemma split_spaces_hd_nonempty:
  assumes "s \<noteq> []" "\<not> isSpace (hd s)"
  shows "hd (split_spaces s) \<noteq> []"
  unfolding split_spaces_hd using assms by (cases s) auto

lemma split_spaces_tl:
  "s = [] \<or> \<not> isSpace (last s) \<Longrightarrow> \<forall>p\<in>set (tl (split_spaces s)). p \<noteq> []"
proof (induction s rule: split_spaces.induct)
  case 1
  then show ?case by simp
next
  case (2 c s)
  show ?case
  proof (cases "isSpace c")
    case True
    define d where "d = dropWhile isSpace s"
    have s: "s \<noteq> []" "\<not> isSpace (last s)" using "2.prems" True by (auto split: if_splits)
    then have d: "d \<noteq> []" unfolding d_def by (cases s rule: rev_cases) auto
    then have ld: "\<not> isSpace (last d)" using s unfolding d_def by (simp add: last_dropWhile)
    have "\<not> isSpace (hd d)" using d unfolding d_def by (rule hd_dropWhile)
    then have "hd (split_spaces d) \<noteq> []"
      using d by (simp add: split_spaces_hd_nonempty)
    moreover have "\<forall>p\<in>set (tl (split_spaces d)). p \<noteq> []"
      using "2.IH"(1) [OF True] ld by (simp add: d_def)
    ultimately have "\<forall>p\<in>set (split_spaces d). p \<noteq> []"
      using split_spaces_nonempty [of d] by (cases "split_spaces d") auto
    then show ?thesis using True by (simp add: d_def)
  next
    case False
    obtain q qs where q: "split_spaces s = q # qs"
      using split_spaces_nonempty [of s] by (cases "split_spaces s") auto
    have "s = [] \<or> \<not> isSpace (last s)" using "2.prems" by (auto split: if_splits)
    then show ?thesis using "2.IH"(2) [OF False] q False by simp
  qed
qed

lemma wordList_split_spaces:
  assumes "trimmed s"
  shows "wordList (split_spaces s)"
proof (cases "s = []")
  case True
  then show ?thesis by (simp add: wordList_def)
next
  case False
  then have h: "\<not> isSpace (hd s)" and l: "\<not> isSpace (last s)"
    using assms by (simp_all add: trimmed_def)
  have "hd (split_spaces s) \<noteq> []"
    using False h by (simp add: split_spaces_hd_nonempty)
  moreover have "\<forall>p\<in>set (tl (split_spaces s)). p \<noteq> []"
    using l by (intro split_spaces_tl) simp
  ultimately have "\<forall>p\<in>set (split_spaces s). p \<noteq> []"
    using split_spaces_nonempty [of s] by (cases "split_spaces s") auto
  then show ?thesis
    using split_spaces_pieces [of _ s] by (auto simp: wordList_def split_spaces_nonempty)
qed

lemma split_spaces_word: "\<not> list_ex isSpace w \<Longrightarrow> split_spaces w = [w]"
  by (induction w) auto

lemma split_spaces_append:
  assumes "\<not> list_ex isSpace w" "isSpace c"
  shows "split_spaces (w @ c # s) = w # split_spaces (dropWhile isSpace s)"
  using assms by (induction w) auto

lemma js_join_words:
  assumes "ws \<noteq> []" "\<forall>w\<in>set ws. w \<noteq> [] \<and> \<not> list_ex isSpace w"
  shows "split_spaces (js_join [0x20] ws) = ws \<and> js_join [0x20] ws \<noteq> []
         \<and> \<not> isSpace (hd (js_join [0x20] ws)) \<and> \<not> isSpace (last (js_join [0x20] ws))"
  using assms
proof (induction ws)
  case Nil
  then show ?case by simp
next
  case (Cons w ws)
  have w: "w \<noteq> []" "\<not> list_ex isSpace w" using Cons.prems by simp_all
  then have hw: "\<not> isSpace (hd w)" and lw: "\<not> isSpace (last w)"
    by (auto simp: list_ex_iff)
  show ?case
  proof (cases "ws = []")
    case True
    then show ?thesis using w hw lw by (simp add: split_spaces_word)
  next
    case False
    then have ih: "split_spaces (js_join [0x20] ws) = ws" "js_join [0x20] ws \<noteq> []"
      "\<not> isSpace (hd (js_join [0x20] ws))" "\<not> isSpace (last (js_join [0x20] ws))"
      using Cons by simp_all
    have sp: "isSpace 0x20" by (simp add: isSpace_def)
    have "dropWhile isSpace (js_join [0x20] ws) = js_join [0x20] ws"
      using ih(2,3) by (cases "js_join [0x20] ws") auto
    then have "split_spaces (w @ 0x20 # js_join [0x20] ws) = w # ws"
      using w(2) sp ih(1) by (simp add: split_spaces_append)
    then show ?thesis
      using False w hw ih by (simp add: js_join_Cons)
  qed
qed

lemma wordList_join:
  assumes "wordList ws"
  shows "trimmed (js_join [0x20] ws)" and "split_spaces (js_join [0x20] ws) = ws"
proof -
  consider "ws = [[]]" | "ws \<noteq> []" "\<forall>w\<in>set ws. w \<noteq> [] \<and> \<not> list_ex isSpace w"
    using assms by (auto simp: wordList_def)
  then have "trimmed (js_join [0x20] ws) \<and> split_spaces (js_join [0x20] ws) = ws"
  proof cases
    case 1
    then show ?thesis by (simp add: trimmed_def)
  next
    case 2
    then show ?thesis using js_join_words [of ws] by (simp add: trimmed_def)
  qed
  then show "trimmed (js_join [0x20] ws)" and "split_spaces (js_join [0x20] ws) = ws"
    by simp_all
qed

lemma trim_append_spaces:
  assumes "list_all isSpace t"
  shows "trim (z @ t) = trim z"
proof (cases "dropWhile isSpace z = []")
  case True
  then have "\<forall>c\<in>set (z @ t). isSpace c" using assms by (auto simp: list_all_iff)
  then have D: "dropWhile isSpace (z @ t) = []" by (simp only: dropWhile_eq_Nil_conv)
  have "trim (z @ t) = []" unfolding trim_def D by simp
  moreover have "trim z = []" unfolding trim_def True by simp
  ultimately show ?thesis by simp
next
  case False
  then have d: "dropWhile isSpace (z @ t) = dropWhile isSpace z @ t"
    by (auto simp: dropWhile_append)
  have "dropWhile isSpace (rev t @ rev (dropWhile isSpace z))
          = dropWhile isSpace (rev (dropWhile isSpace z))"
    using assms by (simp add: dropWhile_append list_all_iff)
  then show ?thesis by (simp add: trim_def d)
qed

lemma trim_decompose:
  obtains a b where "z = a @ trim z @ b" "list_all isSpace a" "list_all isSpace b"
proof -
  define a where "a = takeWhile isSpace z"
  define m where "m = dropWhile isSpace z"
  define b where "b = rev (takeWhile isSpace (rev m))"
  have "trim z = rev (dropWhile isSpace (rev m))" by (simp add: trim_def m_def)
  then have "trim z @ b = rev (dropWhile isSpace (rev m)) @ rev (takeWhile isSpace (rev m))"
    by (simp add: b_def)
  also have "\<dots> = rev (takeWhile isSpace (rev m) @ dropWhile isSpace (rev m))"
    by (simp only: rev_append)
  also have "\<dots> = m" by simp
  finally have "trim z @ b = m" .
  then have "z = a @ trim z @ b" by (simp add: a_def m_def)
  moreover have "list_all isSpace a" by (auto simp: a_def list_all_iff dest: set_takeWhileD)
  moreover have "list_all isSpace b" by (auto simp: b_def list_all_iff dest: set_takeWhileD)
  ultimately show ?thesis using that by blast
qed

lemma trim_prepend_spaces:
  assumes "list_all isSpace a"
  shows "trim (a @ z) = trim z"
proof -
  have "dropWhile isSpace (a @ z) = dropWhile isSpace z"
    using assms by (simp add: dropWhile_append list_all_iff)
  then show ?thesis by (simp add: trim_def)
qed

lemma split_spaces_last_word:
  assumes "\<not> list_ex isSpace w" "r \<noteq> []" "list_all isSpace r"
    and "a \<noteq> []" "\<not> isSpace (last a)"
  shows "split_spaces (a @ r @ w) = split_spaces a @ [w]"
  using assms(4,5)
proof (induction a rule: split_spaces.induct)
  case 1
  then show ?case by simp
next
  case (2 c s)
  have rw: "split_spaces (r @ w) = [[], w]"
  proof -
    obtain d r' where r: "r = d # r'" using assms(2) by (cases r) auto
    then have "isSpace d" "list_all isSpace r'" using assms(3) by simp_all
    then have "dropWhile isSpace (r' @ w) = w"
      using assms(1) by (cases w) (auto simp: dropWhile_append list_all_iff)
    then show ?thesis using r \<open>isSpace d\<close> assms(1) by (simp add: split_spaces_word)
  qed
  show ?case
  proof (cases "isSpace c")
    case True
    define d where "d = dropWhile isSpace s"
    have s: "s \<noteq> []" "\<not> isSpace (last s)" using "2.prems" True by (auto split: if_splits)
    then have dn: "d \<noteq> []" unfolding d_def by (cases s rule: rev_cases) auto
    then have ld: "\<not> isSpace (last d)" using s unfolding d_def by (simp add: last_dropWhile)
    have "dropWhile isSpace (s @ r @ w) = d @ r @ w"
      using dn by (auto simp: d_def dropWhile_append)
    moreover have "split_spaces (d @ r @ w) = split_spaces d @ [w]"
      using "2.IH"(1) [OF True] dn ld by (simp add: d_def)
    ultimately show ?thesis using True by (simp add: d_def)
  next
    case False
    show ?thesis
    proof (cases "s = []")
      case True
      then show ?thesis using False rw by simp
    next
      case ne: False
      then have "\<not> isSpace (last s)" using "2.prems" by simp
      then have ih: "split_spaces (s @ r @ w) = split_spaces s @ [w]"
        using "2.IH"(2) [OF False] ne by simp
      obtain q qs where q: "split_spaces s = q # qs"
        using split_spaces_nonempty [of s] by (cases "split_spaces s") auto
      show ?thesis using False ih q by simp
    qed
  qed
qed

lemma words_with_last_word:
  assumes "trim x \<noteq> []" "s \<noteq> []" "list_all isSpace s" "list_all isSpace t"
    and "w \<noteq> []" "\<not> list_ex isSpace w"
  shows "split_spaces (trim (x @ s @ w @ t)) = split_spaces (trim x) @ [w]"
proof -
  obtain a b where x: "x = a @ trim x @ b" and a: "list_all isSpace a" and b: "list_all isSpace b"
    by (rule trim_decompose)
  define m where "m = trim x"
  have tm: "trimmed m" unfolding m_def by (rule trimmed_trim)
  then have m: "\<not> isSpace (hd m)" "\<not> isSpace (last m)" "m \<noteq> []"
    using assms(1) by (simp_all add: trimmed_def m_def)
  have w: "\<not> isSpace (hd w)" "\<not> isSpace (last w)"
    using assms(5,6) by (auto simp: list_ex_iff)
  have "trimmed (m @ (b @ s) @ w)"
    using m w assms(5) by (simp add: trimmed_def)
  then have core: "trim (m @ (b @ s) @ w) = m @ (b @ s) @ w" by (rule trim_trimmed)
  have "x @ s @ w @ t = (a @ (m @ (b @ s) @ w)) @ t"
    using x by (simp add: m_def)
  then have "trim (x @ s @ w @ t) = trim ((a @ (m @ (b @ s) @ w)) @ t)" by simp
  also have "\<dots> = trim (a @ (m @ (b @ s) @ w))"
    using assms(4) by (rule trim_append_spaces)
  also have "\<dots> = trim (m @ (b @ s) @ w)"
    using a by (rule trim_prepend_spaces)
  finally have "trim (x @ s @ w @ t) = m @ (b @ s) @ w" using core by simp
  moreover have "split_spaces (m @ (b @ s) @ w) = split_spaces m @ [w]"
    using assms(2,3,6) b m by (intro split_spaces_last_word) simp_all
  ultimately show ?thesis by (simp add: m_def)
qed

section \<open>Where the parts of a name start\<close>

lemma plainInitials_append:
  "plainInitials b (l @ s) \<Longrightarrow>
   plainInitials b l \<and> plainInitials (if l = [] then b else startsSegment (last l)) s"
  by (induction l arbitrary: b) auto

lemma plainInitials_after:
  assumes "plainInitials True (l @ c # r)" "startsSegment c"
  shows "plainInitials True r"
proof -
  have "plainInitials (if l = [] then True else startsSegment (last l)) (c # r)"
    using plainInitials_append [OF assms(1)] by simp
  then show ?thesis using assms(2) by simp
qed

lemma plainInitials_dropWhile:
  "plainInitials True s \<Longrightarrow> plainInitials True (dropWhile isSpace s)"
  by (induction s) (auto simp: startsSegment_def)

lemma plainInitials_js_split:
  assumes "plainInitials b w" "startsSegment sep"
  shows "plainInitials b (hd (js_split sep w))
         \<and> (\<forall>p\<in>set (tl (js_split sep w)). plainInitials True p)"
  using assms(1)
proof (induction w arbitrary: b)
  case Nil
  then show ?case by simp
next
  case (Cons c s)
  obtain q qs where q: "js_split sep s = q # qs"
    using js_split_nonempty [of sep s] by (cases "js_split sep s") auto
  show ?case
  proof (cases "c = sep")
    case True
    then have "plainInitials True s" using Cons.prems assms(2) by simp
    then show ?thesis using Cons.IH [of True] True q by auto
  next
    case False
    have "plainInitials (startsSegment c) s" using Cons.prems by simp
    then show ?thesis using Cons.IH [of "startsSegment c"] Cons.prems False q by auto
  qed
qed

lemma plainInitials_hyphen_parts:
  assumes "plainInitials True w" "p \<in> set (js_split 0x2D w)"
  shows "plainInitials True p"
proof -
  have "startsSegment 0x2D" by (simp add: startsSegment_def)
  from plainInitials_js_split [OF assms(1) this] assms(2) js_split_nonempty [of "0x2D" w]
  show ?thesis by (cases "js_split 0x2D w") auto
qed

lemma plainInitials_split_spaces:
  "plainInitials b s \<Longrightarrow>
   plainInitials b (hd (split_spaces s))
   \<and> (\<forall>p\<in>set (tl (split_spaces s)). plainInitials True p)"
proof (induction s arbitrary: b rule: split_spaces.induct)
  case 1
  then show ?case by simp
next
  case (2 c s)
  show ?case
  proof (cases "isSpace c")
    case True
    then have "plainInitials True s" using "2.prems" by (simp add: startsSegment_def)
    then have "plainInitials True (dropWhile isSpace s)" by (rule plainInitials_dropWhile)
    then show ?thesis
      using "2.IH"(1) [OF True, of True] True split_spaces_nonempty [of "dropWhile isSpace s"]
      by (cases "split_spaces (dropWhile isSpace s)") auto
  next
    case False
    obtain q qs where q: "split_spaces s = q # qs"
      using split_spaces_nonempty [of s] by (cases "split_spaces s") auto
    have "plainInitials (startsSegment c) s" using "2.prems" by simp
    then show ?thesis
      using "2.IH"(2) [OF False, of "startsSegment c"] "2.prems" False q by auto
  qed
qed

lemma plainInitials_trim:
  assumes "plainInitials True x"
  shows "plainInitials True (trim x)"
proof -
  obtain a b where x: "x = a @ trim x @ b" and a: "list_all isSpace a"
    by (rule trim_decompose)
  have "plainInitials True (a @ trim x @ b)" using assms x by simp
  then have "plainInitials (if a = [] then True else startsSegment (last a)) (trim x @ b)"
    using plainInitials_append by blast
  moreover have "a \<noteq> [] \<Longrightarrow> startsSegment (last a)"
    using a by (auto simp: list_all_iff startsSegment_def)
  ultimately have "plainInitials True (trim x @ b)" by (cases "a = []") simp_all
  then show ?thesis using plainInitials_append by blast
qed

lemma plainInitials_words:
  assumes "plainInitials True x" "w \<in> set (split_spaces (trim x))"
  shows "plainInitials True w"
  using plainInitials_split_spaces [OF plainInitials_trim [OF assms(1)]] assms(2)
    split_spaces_nonempty [of "trim x"]
  by (cases "split_spaces (trim x)") auto

section \<open>FullName: capitalizing twice\<close>

lemma capitalizeWord_Nil: "capitalizeWord [] = []"
  by (simp add: capitalizeWord.simps toUpperCase_def toLowerCase_def)

lemma capitalizeWord_hyphen:
  "0x2D \<in> set w \<Longrightarrow>
   capitalizeWord w = js_join [0x2D] (map capitalizeWord (js_split 0x2D w))"
  by (subst capitalizeWord.simps) simp

lemma capitalizeWord_apostrophe:
  assumes "0x2D \<notin> set l" "0x2D \<notin> set r" "0x27 \<notin> set l"
  shows "capitalizeWord (l @ 0x27 # r) = l @ 0x27 # capitalizeWord r"
proof -
  have t: "takeWhile (\<lambda>c. c \<noteq> 0x27) (l @ 0x27 # r) = l"
    using assms(3) by (simp add: takeWhile_append)
  show ?thesis
    using assms(1,2)
    by (subst capitalizeWord.simps) (simp add: t Let_def capitalizeWord_Nil)
qed

lemma capitalizeWord_plain:
  "0x2D \<notin> set w \<Longrightarrow> 0x27 \<notin> set w \<Longrightarrow>
   capitalizeWord w = toUpperCase (take 1 w) @ toLowerCase (drop 1 w)"
  by (subst capitalizeWord.simps) simp

lemma capitalizeWord_Cons_plain:
  assumes "0x2D \<notin> set (c # r)" "0x27 \<notin> set (c # r)" "isPlainLatin1 c"
  shows "capitalizeWord (c # r) = upper1 c # toLowerCase r"
  using assms by (simp add: capitalizeWord_plain toUpperCase_def upper_unit_upper1)

lemma apostrophe_induct [case_names plain apostrophe]:
  assumes "\<And>w. 0x27 \<notin> set w \<Longrightarrow> P w"
    and "\<And>l r. 0x27 \<notin> set l \<Longrightarrow> P r \<Longrightarrow> P (l @ 0x27 # r)"
  shows "P w"
proof (induction w rule: length_induct)
  case (1 w)
  show ?case
  proof (cases "0x27 \<in> set w")
    case False
    then show ?thesis by (rule assms(1))
  next
    case True
    then obtain l r where w: "w = l @ 0x27 # r" and l: "0x27 \<notin> set l"
      by (meson split_list_first)
    have "P r" using 1 w by simp
    then show ?thesis using assms(2) l w by simp
  qed
qed

text \<open>Words without a hyphen.\<close>

lemma cap_segment:
  assumes "0x2D \<notin> set w" "plainInitials True w"
  shows "capitalizeWord (capitalizeWord w) = capitalizeWord w
         \<and> 0x2D \<notin> set (capitalizeWord w)
         \<and> (capitalizeWord w = [] \<longleftrightarrow> w = [])
         \<and> (0x27 \<in> set (capitalizeWord w) \<longleftrightarrow> 0x27 \<in> set w)
         \<and> (list_ex isSpace (capitalizeWord w) \<longrightarrow> list_ex isSpace w)"
  using assms
proof (induction w rule: apostrophe_induct)
  case (plain w)
  show ?case
  proof (cases w)
    case Nil
    then show ?thesis by (simp add: capitalizeWord_Nil)
  next
    case (Cons c r)
    have c: "isPlainLatin1 c" using plain Cons by (simp add: isPlainLatin1_def)
    have cw: "capitalizeWord w = upper1 c # toLowerCase r"
      using plain Cons c by (simp add: capitalizeWord_Cons_plain)
    have h: "0x2D \<notin> set (upper1 c # toLowerCase r)"
      using plain Cons by (simp add: upper1_hyphen toLowerCase_hyphen)
    have a: "0x27 \<notin> set (upper1 c # toLowerCase r)"
      using plain Cons by (simp add: upper1_apostrophe toLowerCase_apostrophe)
    have "capitalizeWord (upper1 c # toLowerCase r) = upper1 c # toLowerCase r"
      using h a by (simp add: capitalizeWord_plain toUpperCase_def upper1_idem [OF c]
          toLowerCase_idem)
    moreover have "list_ex isSpace (upper1 c # toLowerCase r) \<longrightarrow> list_ex isSpace w"
      using Cons upper1_not_space [of c] by (auto simp: toLowerCase_space)
    ultimately show ?thesis
      using cw h a plain Cons by simp
  qed
next
  case (apostrophe l r)
  have l: "0x2D \<notin> set l" and r: "0x2D \<notin> set r"
    using apostrophe.prems by simp_all
  have pr: "plainInitials True r"
    using apostrophe.prems(2) by (rule plainInitials_after) (simp add: startsSegment_def)
  note ih = apostrophe.IH [OF r pr]
  have cw: "capitalizeWord (l @ 0x27 # r) = l @ 0x27 # capitalizeWord r"
    using l r apostrophe.hyps by (rule capitalizeWord_apostrophe)
  have "capitalizeWord (l @ 0x27 # capitalizeWord r) = l @ 0x27 # capitalizeWord r"
    using l ih apostrophe.hyps by (simp add: capitalizeWord_apostrophe)
  then show ?case
    using cw l ih by auto
qed

lemma cap_word:
  assumes "plainInitials True w"
  shows "capitalizeWord (capitalizeWord w) = capitalizeWord w
         \<and> (capitalizeWord w = [] \<longleftrightarrow> w = [])
         \<and> (0x2D \<in> set (capitalizeWord w) \<longleftrightarrow> 0x2D \<in> set w)
         \<and> (0x2D \<notin> set w \<longrightarrow> (0x27 \<in> set (capitalizeWord w) \<longleftrightarrow> 0x27 \<in> set w))
         \<and> (list_ex isSpace (capitalizeWord w) \<longrightarrow> list_ex isSpace w)"
proof (cases "0x2D \<in> set w")
  case False
  then show ?thesis using cap_segment [OF False assms] by simp
next
  case True
  define ps where "ps = js_split 0x2D w"
  define qs where "qs = map capitalizeWord ps"
  have len: "2 \<le> length ps" using True by (simp add: ps_def js_split_length)
  have seg: "0x2D \<notin> set p \<and> plainInitials True p" if "p \<in> set ps" for p
    using that assms js_split_no_sep [of p "0x2D" w] plainInitials_hyphen_parts [of w p]
    by (auto simp: ps_def)
  have q: "capitalizeWord q = q \<and> 0x2D \<notin> set q" if "q \<in> set qs" for q
    using that seg cap_segment by (auto simp: qs_def)
  have cw: "capitalizeWord w = js_join [0x2D] qs"
    using True by (simp add: capitalizeWord_hyphen ps_def qs_def)
  have h: "0x2D \<in> set (js_join [0x2D] qs)"
    using len by (simp add: js_join_has_sep qs_def)
  have "qs \<noteq> []" using len by (auto simp: qs_def)
  then have "js_split 0x2D (js_join [0x2D] qs) = qs"
    using q by (simp add: js_split_join)
  moreover have "map capitalizeWord qs = qs"
    using q by (simp add: map_idI)
  ultimately have idem: "capitalizeWord (js_join [0x2D] qs) = js_join [0x2D] qs"
    using h by (simp add: capitalizeWord_hyphen)
  have "list_ex isSpace w" if "list_ex isSpace (js_join [0x2D] qs)"
  proof -
    from that obtain c where c: "c \<in> set (js_join [0x2D] qs)" "isSpace c"
      by (auto simp: list_ex_iff)
    then have "c \<noteq> 0x2D" by (auto simp: isSpace_def)
    then obtain q where "q \<in> set qs" "c \<in> set q"
      using c(1) set_js_join [of "0x2D" qs] by auto
    then obtain p where p: "p \<in> set ps" "c \<in> set (capitalizeWord p)"
      by (auto simp: qs_def)
    then have "list_ex isSpace p"
      using cap_segment [of p] seg c(2) by (auto simp: list_ex_iff)
    then show ?thesis
      using p(1) js_split_subset [of p "0x2D" w] by (auto simp: list_ex_iff ps_def)
  qed
  then show ?thesis
    using True cw h idem by auto
qed

lemma lowerCaseWords_shape:
  assumes "v \<in> set lowerCaseWords"
  shows "0x2D \<notin> set v" "0x27 \<notin> set v" "v \<noteq> []" "hd v \<noteq> 0x3BC" "toLowerCase v = v"
  using assms by (auto simp: lowerCaseWords_def str_def toLowerCase_def lower_unit_def)

lemma connector_after_capitalize:
  assumes "plainInitials True w" "toLowerCase (capitalizeWord w) \<in> set lowerCaseWords"
  shows "toLowerCase w \<in> set lowerCaseWords"
proof -
  note v = lowerCaseWords_shape [OF assms(2)]
  note cw = cap_word [OF assms(1)]
  have h: "0x2D \<notin> set w" using v(1) cw by (simp add: toLowerCase_hyphen)
  have a: "0x27 \<notin> set w" using v(2) cw h by (simp add: toLowerCase_apostrophe)
  have "w \<noteq> []" using v(3) cw by (auto simp: toLowerCase_def)
  then obtain c r where w: "w = c # r" by (cases w) auto
  have c: "isPlainLatin1 c" using assms(1) w by (simp add: isPlainLatin1_def)
  have eq: "toLowerCase (capitalizeWord w) = lower_unit (upper1 c) # toLowerCase r"
    using h a c w by (simp add: capitalizeWord_Cons_plain toLowerCase_def lower_unit_idem)
  then have "lower_unit (upper1 c) \<noteq> 0x3BC" using v(4) by simp
  then have "lower_unit (upper1 c) = lower_unit c" using lower_upper1 [OF c] by simp
  then have "toLowerCase (capitalizeWord w) = toLowerCase w"
    using eq w by (simp add: toLowerCase_def)
  then show ?thesis using assms(2) by simp
qed

lemma processWord_idem:
  assumes "plainInitials True w"
  shows "processWord i (processWord i w) = processWord i w"
proof (cases "i \<noteq> 0 \<and> toLowerCase w \<in> set lowerCaseWords")
  case True
  then show ?thesis by (simp add: processWord_def toLowerCase_idem)
next
  case False
  then have p: "processWord i w = capitalizeWord w" by (auto simp: processWord_def)
  have "toLowerCase (capitalizeWord w) \<notin> set lowerCaseWords" if "i \<noteq> 0"
    using that False connector_after_capitalize [OF assms] by auto
  then have "processWord i (capitalizeWord w) = capitalizeWord (capitalizeWord w)"
    by (auto simp: processWord_def)
  then show ?thesis
    using cap_word [OF assms] by (simp add: p)
qed

lemma processWord_shape:
  assumes "plainInitials True w"
  shows "(processWord i w = [] \<longleftrightarrow> w = [])
         \<and> (list_ex isSpace (processWord i w) \<longrightarrow> list_ex isSpace w)"
  using cap_word [OF assms]
  by (auto simp: processWord_def toLowerCase_space) (simp_all add: toLowerCase_def)

section \<open>FullName: normalizing twice\<close>

lemma normalizeName_words:
  "normalizeName x =
     js_join [0x20] (map (\<lambda>(index, word). processWord index word)
                       (enumerate 0 (split_spaces (trim x))))"
proof -
  have "\<forall>p\<in>set (split_spaces (trim x)). 0x20 \<notin> set p"
    using split_spaces_pieces [of _ "trim x"] by (auto simp: list_ex_iff isSpace_def)
  then have "js_split 0x20 (replace_spaces (trim x)) = split_spaces (trim x)"
    by (simp add: replace_spaces_join js_split_join split_spaces_nonempty)
  then show ?thesis by (simp add: normalizeName_def)
qed

lemma processWords_idem:
  assumes "\<forall>w\<in>set ws. plainInitials True w"
  shows "map (\<lambda>(index, word). processWord index word)
           (enumerate 0 (map (\<lambda>(index, word). processWord index word) (enumerate 0 ws)))
         = map (\<lambda>(index, word). processWord index word) (enumerate 0 ws)"
proof (rule nth_equalityI)
  show "length (map (\<lambda>(index, word). processWord index word)
           (enumerate 0 (map (\<lambda>(index, word). processWord index word) (enumerate 0 ws))))
         = length (map (\<lambda>(index, word). processWord index word) (enumerate 0 ws))"
    by simp
next
  fix i
  assume "i < length (map (\<lambda>(index, word). processWord index word)
           (enumerate 0 (map (\<lambda>(index, word). processWord index word) (enumerate 0 ws))))"
  then have i: "i < length ws" by simp
  then have "plainInitials True (ws ! i)" using assms by simp
  then have "processWord i (processWord i (ws ! i)) = processWord i (ws ! i)"
    by (rule processWord_idem)
  then show "map (\<lambda>(index, word). processWord index word)
           (enumerate 0 (map (\<lambda>(index, word). processWord index word) (enumerate 0 ws))) ! i
         = map (\<lambda>(index, word). processWord index word) (enumerate 0 ws) ! i"
    using i by (simp add: nth_enumerate_eq)
qed

lemma processWords_wordList:
  assumes "wordList ws" "\<forall>w\<in>set ws. plainInitials True w"
  shows "wordList (map (\<lambda>(index, word). processWord index word) (enumerate 0 ws))"
proof -
  let ?ps = "map (\<lambda>(index, word). processWord index word) (enumerate 0 ws)"
  have each: "\<exists>i w. p = processWord i w \<and> w \<in> set ws" if "p \<in> set ?ps" for p
    using that by (fastforce simp: in_set_enumerate_eq)
  have space: "\<forall>p\<in>set ?ps. \<not> list_ex isSpace p"
  proof
    fix p assume "p \<in> set ?ps"
    then obtain i w where p: "p = processWord i w" "w \<in> set ws" using each by blast
    then have "\<not> list_ex isSpace w" "plainInitials True w" using assms by (auto simp: wordList_def)
    then show "\<not> list_ex isSpace p" using processWord_shape [of w i] p(1) by auto
  qed
  consider "ws = [[]]" | "ws \<noteq> []" "\<forall>w\<in>set ws. w \<noteq> []"
    using assms(1) by (auto simp: wordList_def)
  then have "?ps = [[]] \<or> (?ps \<noteq> [] \<and> (\<forall>p\<in>set ?ps. p \<noteq> []))"
  proof cases
    case 1
    then show ?thesis by (simp add: processWord_def capitalizeWord_Nil)
  next
    case 2
    have "\<forall>p\<in>set ?ps. p \<noteq> []"
    proof
      fix p assume "p \<in> set ?ps"
      then obtain i w where p: "p = processWord i w" "w \<in> set ws" using each by blast
      then have "w \<noteq> []" "plainInitials True w" using 2 assms(2) by auto
      then show "p \<noteq> []" using processWord_shape [of w i] p(1) by auto
    qed
    moreover have "?ps \<noteq> []" using 2(1) by (cases ws) (simp_all add: enumerate_simps)
    ultimately show ?thesis by blast
  qed
  then show ?thesis using space by (simp add: wordList_def)
qed

text \<open>
  For an input made of units up to U+00FF in which U+00DF stands neither at the start nor
  right after white space, a hyphen or an apostrophe, normalizing the normalized name
  gives the normalized name again.
\<close>

lemma normalizeName_twice:
  assumes "plainInitials True x"
  shows "normalizeName (normalizeName x) = normalizeName x"
proof -
  define ws where "ws = split_spaces (trim x)"
  let ?ps = "map (\<lambda>(index, word). processWord index word) (enumerate 0 ws)"
  have plain: "\<forall>w\<in>set ws. plainInitials True w"
    using assms plainInitials_words by (auto simp: ws_def)
  have "wordList ws"
    unfolding ws_def by (intro wordList_split_spaces trimmed_trim)
  then have wl: "wordList ?ps" using plain by (rule processWords_wordList)
  have y: "normalizeName x = js_join [0x20] ?ps"
    by (simp add: normalizeName_words ws_def)
  have "trim (js_join [0x20] ?ps) = js_join [0x20] ?ps"
    using wordList_join(1) [OF wl] by (rule trim_trimmed)
  then have "normalizeName (js_join [0x20] ?ps) = js_join [0x20] ?ps"
    using wordList_join(2) [OF wl] processWords_idem [OF plain]
    by (simp add: normalizeName_words [of "js_join [0x20] ?ps"])
  then show ?thesis
    by (simp add: y)
qed

text \<open>
  The two names of the specification, and two names that hold U+00DF inside or at the end
  of a word: each is normalized to the same string once and twice.
\<close>

lemma normalizeName_examples:
  "map_sum message FullName_raw (FullName_new (str ''maria DA silva''))
     = Inr (str ''Maria da Silva'')
   \<and> map_sum message FullName_raw (FullName_new (str ''de souza pereira''))
     = Inr (str ''De Souza Pereira'')
   \<and> normalizeName (normalizeName (str ''stra'' @ [0xDF] @ str ''e silva''))
     = normalizeName (str ''stra'' @ [0xDF] @ str ''e silva'')
   \<and> plainInitials True (str ''stra'' @ [0xDF] @ str ''e silva'')
   \<and> plainInitials True (str ''Jos'' @ [0xE9] @ str '' Wei'' @ [0xDF])"
  by code_simp

text \<open>
  Claim C5. Normalizing a normalized name should change nothing, for every input. The code
  breaks this on a word that starts with U+00DF (the German sharp s): \<open>capitalizeWord\<close>
  takes the upper case of the first unit, which for U+00DF is the two units \<open>SS\<close>, so
  the name made of U+00DF, \<open>a\<close>, a space and \<open>silva\<close> is normalized to \<open>SSa Silva\<close>,
  a word with two capitals, and that one to \<open>Ssa Silva\<close>.
\<close>

theorem normalizeName_sharp_s_not_idempotent:
  "normalizeName ([0xDF] @ str ''a silva'') = str ''SSa Silva''
   \<and> normalizeName (normalizeName ([0xDF] @ str ''a silva'')) = str ''Ssa Silva''
   \<and> normalizeName (normalizeName ([0xDF] @ str ''a silva''))
       \<noteq> normalizeName ([0xDF] @ str ''a silva'')"
  by code_simp

section \<open>FullName: single words and final connectors\<close>

text \<open>
  Claim C8. When the normalized input has fewer than two components between white space,
  the constructor of FullName throws, whatever the length of the word.
\<close>

theorem FullName_single_word_fails:
  assumes "length (split_spaces (trim (normalizeName x))) < 2"
  shows "\<exists>err. FullName_new x = Inl err"
proof -
  have "\<not> FullName_validate (normalizeName x)"
    using assms by (simp add: FullName_validate_def Let_def)
  then have "issues FullName_schema (normalizeName x) \<noteq> []"
    by (simp add: issues_def FullName_schema_def)
  then show ?thesis
    by (simp add: FullName_new_def Let_def safeParse_def)
qed

theorem FullName_single_word_fails_witness:
  "length (split_spaces (trim (normalizeName (str ''Jo'' @ [0xE3] @ str ''o'')))) < 2
   \<and> (\<exists>err. FullName_new (str ''Jo'' @ [0xE3] @ str ''o'') = Inl err)"
proof -
  have h: "length (split_spaces (trim (normalizeName (str ''Jo'' @ [0xE3] @ str ''o'')))) < 2"
    by code_simp
  from FullName_single_word_fails [OF h] h show ?thesis by simp
qed

lemma js_split_snoc: "sep \<notin> set w \<Longrightarrow> js_split sep (y @ sep # w) = js_split sep y @ [w]"
proof (induction y)
  case Nil
  then show ?case by (simp add: js_split_without_sep)
next
  case (Cons c y)
  obtain q qs where q: "js_split sep y = q # qs"
    using js_split_nonempty [of sep y] by (cases "js_split sep y") auto
  show ?case using Cons q by simp
qed

lemma js_join_append_last:
  "ps \<noteq> [] \<Longrightarrow> js_join [sep] (ps @ [q]) = js_join [sep] ps @ sep # q"
proof (induction ps)
  case Nil
  then show ?case by simp
next
  case (Cons p ps)
  then show ?case by (cases "ps = []") (simp_all add: js_join_Cons)
qed

lemma check_words_append: "check_words (a @ b) \<longleftrightarrow> check_words a \<and> check_words b"
  by (induction a) auto

lemma normalizeName_blank:
  assumes "trim x = []"
  shows "normalizeName x = []"
  using assms by (simp add: normalizeName_def enumerate_simps processWord_def capitalizeWord_Nil)

lemma two_letter_connector:
  assumes "toLowerCase w \<in> set lowerCaseWords" "length w = 2"
  shows "check_words [toLowerCase w]" and "0x20 \<notin> set (toLowerCase w)"
    and "\<not> list_ex isSpace (toLowerCase w)" and "\<not> list_ex isSpace w"
    and "length (toLowerCase w) = 2"
proof -
  have len: "length (toLowerCase w) = 2" using assms(2) by (simp add: toLowerCase_def)
  have "toLowerCase w \<in> set (filter (\<lambda>v. length v = 2) lowerCaseWords)"
    using assms(1) len by simp
  then have v: "toLowerCase w \<in> set (map str [''de'', ''da'', ''do'', ''os'', ''as'', ''em''])"
    by (simp add: lowerCaseWords_def str_def)
  show "check_words [toLowerCase w]"
    using v by (auto simp: str_def starts_with_letter_def only_name_units_def isLetter_def)
  show "0x20 \<notin> set (toLowerCase w)" using v by (auto simp: str_def)
  show "\<not> list_ex isSpace (toLowerCase w)" using v by (auto simp: str_def isSpace_def)
  then show "\<not> list_ex isSpace w" by (simp add: toLowerCase_space)
  show "length (toLowerCase w) = 2" by (rule len)
qed

lemma accepted_name_words:
  assumes "FullName_new x = Inr n"
  shows "check_words (split_spaces (trim (normalizeName x)))"
proof -
  have "issues FullName_schema (normalizeName x) = []"
    using assms by (auto simp: FullName_new_def Let_def safeParse_def split: if_splits)
  then have "FullName_validate (normalizeName x)"
    by (auto simp: issues_def FullName_schema_def split: if_splits)
  then show ?thesis
    by (auto simp: FullName_validate_def Let_def split: if_splits)
qed

text \<open>
  Claim C10. A name may end in a two-letter connector. Take any input \<open>x\<close> whose normalized
  words all pass the loop of \<open>validate\<close>: every accepted name is one (lemma
  \<open>accepted_name_words\<close>), and so is a single word such as "Joao" (written with U+00E3).
  Put white space, a two-letter word of the connector list in any letter case, and
  possibly more white space after it. The constructor accepts the result as long as it
  stays within 100 units, stores the normalized \<open>x\<close>, a space and the connector in lower
  case, and \<open>getLastName\<close> returns the connector in lower case. So "Joao de" is accepted
  and its last name is "de".
\<close>

theorem FullName_connector_last:
  assumes "check_words (split_spaces (trim (normalizeName x)))"
    and "toLowerCase w \<in> set lowerCaseWords" and "length w = 2"
    and "s \<noteq> []" and "list_all isSpace s" and "list_all isSpace t"
    and "length (normalizeName x) + 3 \<le> 100"
  shows "FullName_new (x @ s @ w @ t)
           = Inr (FullName (normalizeName x @ [0x20] @ toLowerCase w))
         \<and> getLastName (FullName (normalizeName x @ [0x20] @ toLowerCase w))
           = Some (toLowerCase w)"
proof -
  define y where "y = normalizeName x"
  define lw where "lw = toLowerCase w"
  note c = two_letter_connector [OF assms(2,3), folded lw_def]
  have wn: "w \<noteq> []" using assms(3) by auto
  have lwn: "lw \<noteq> []" using c(5) by auto
  have ty: "trim y \<noteq> []"
  proof
    assume "trim y = []"
    then have "\<not> check_words (split_spaces (trim y))"
      by (simp add: starts_with_letter_def)
    then show False using assms(1) by (simp add: y_def)
  qed
  have tx: "trim x \<noteq> []"
  proof
    assume "trim x = []"
    then have "y = []" by (simp add: y_def normalizeName_blank)
    then show False using ty by (simp add: trim_def)
  qed
  have words: "split_spaces (trim (x @ s @ w @ t)) = split_spaces (trim x) @ [w]"
    using tx assms(4,5,6) wn c(4) by (rule words_with_last_word)
  have idx: "length (split_spaces (trim x)) \<noteq> 0"
    using split_spaces_nonempty [of "trim x"] by simp
  have "normalizeName (x @ s @ w @ t) =
          js_join [0x20] (map (\<lambda>(index, word). processWord index word)
             (enumerate 0 (split_spaces (trim x))) @ [lw])"
    using idx assms(2)
    by (simp add: normalizeName_words words enumerate_append_eq processWord_def lw_def)
  also have "\<dots> = js_join [0x20] (map (\<lambda>(index, word). processWord index word)
             (enumerate 0 (split_spaces (trim x)))) @ 0x20 # lw"
    using idx by (intro js_join_append_last) (cases "split_spaces (trim x)", simp_all add: enumerate_simps)
  finally have norm: "normalizeName (x @ s @ w @ t) = y @ 0x20 # lw"
    by (simp add: normalizeName_words y_def)
  have "split_spaces (trim (y @ [0x20] @ lw @ [])) = split_spaces (trim y) @ [lw]"
    using ty lwn c(3) by (intro words_with_last_word) (simp_all add: isSpace_def)
  then have sp: "split_spaces (trim (y @ 0x20 # lw)) = split_spaces (trim y) @ [lw]"
    by simp
  have cw: "check_words (split_spaces (trim y) @ [lw])"
    using assms(1) c(1) by (simp only: check_words_append y_def simp_thms)
  have "2 \<le> length (split_spaces (trim y) @ [lw])"
    using split_spaces_nonempty [of "trim y"] by (cases "split_spaces (trim y)") simp_all
  then have "FullName_validate (y @ 0x20 # lw)"
    using cw unfolding FullName_validate_def Let_def sp by (simp only: not_less [symmetric] if_False)
  moreover have "3 \<le> length (y @ 0x20 # lw)" using c(5) by simp
  moreover have "length (y @ 0x20 # lw) \<le> 100" using assms(7) c(5) by (simp add: y_def)
  ultimately have "issues FullName_schema (y @ 0x20 # lw) = []"
    by (simp add: issues_def FullName_schema_def)
  then have new: "FullName_new (x @ s @ w @ t) = Inr (FullName (y @ 0x20 # lw))"
    by (simp add: FullName_new_def Let_def norm safeParse_def)
  have "js_split 0x20 (y @ 0x20 # lw) = js_split 0x20 y @ [lw]"
    using c(2) by (rule js_split_snoc)
  then have "getLastName (FullName (y @ 0x20 # lw)) = Some lw"
    by (simp add: getLastName_def Let_def at_nth)
  then show ?thesis using new by (simp add: y_def lw_def)
qed

theorem FullName_connector_last_witness:
  "FullName_new (str ''Jo'' @ [0xE3] @ str ''o de'')
     = Inr (FullName (str ''Jo'' @ [0xE3] @ str ''o de''))
   \<and> getLastName (FullName (str ''Jo'' @ [0xE3] @ str ''o de'')) = Some (str ''de'')
   \<and> FullName_new (str ''maria da silva'' @ str ''  '' @ str ''DE'' @ str '' '')
     = Inr (FullName (str ''Maria da Silva de''))
   \<and> getLastName (FullName (str ''Maria da Silva de'')) = Some (str ''de'')"
proof -
  have a1: "check_words (split_spaces (trim (normalizeName (str ''Jo'' @ [0xE3] @ str ''o''))))"
    by code_simp
  have a2: "toLowerCase (str ''de'') \<in> set lowerCaseWords" by code_simp
  have a3: "length (str ''de'') = 2" by code_simp
  have a4: "str '' '' \<noteq> []" by code_simp
  have a5: "list_all isSpace (str '' '')" by code_simp
  have a6: "list_all isSpace []" by simp
  have a7: "length (normalizeName (str ''Jo'' @ [0xE3] @ str ''o'')) + 3 \<le> 100" by code_simp
  have n1: "normalizeName (str ''Jo'' @ [0xE3] @ str ''o'') @ [0x20] @ toLowerCase (str ''de'')
              = str ''Jo'' @ [0xE3] @ str ''o de''"
    by code_simp
  have i1: "(str ''Jo'' @ [0xE3] @ str ''o'') @ str '' '' @ str ''de'' @ []
              = str ''Jo'' @ [0xE3] @ str ''o de''"
    by code_simp
  have b1: "check_words (split_spaces (trim (normalizeName (str ''maria da silva''))))"
    by code_simp
  have b2: "toLowerCase (str ''DE'') \<in> set lowerCaseWords" by code_simp
  have b3: "length (str ''DE'') = 2" by code_simp
  have b4: "str ''  '' \<noteq> []" by code_simp
  have b5: "list_all isSpace (str ''  '')" by code_simp
  have b6: "list_all isSpace (str '' '')" by code_simp
  have b7: "length (normalizeName (str ''maria da silva'')) + 3 \<le> 100" by code_simp
  have n2: "normalizeName (str ''maria da silva'') @ [0x20] @ toLowerCase (str ''DE'')
              = str ''Maria da Silva de''"
    by code_simp
  have l1: "toLowerCase (str ''de'') = str ''de''" by code_simp
  have l2: "toLowerCase (str ''DE'') = str ''de''" by code_simp
  have r1: "FullName_new (str ''Jo'' @ [0xE3] @ str ''o de'')
              = Inr (FullName (str ''Jo'' @ [0xE3] @ str ''o de''))
            \<and> getLastName (FullName (str ''Jo'' @ [0xE3] @ str ''o de''))
              = Some (toLowerCase (str ''de''))"
    using FullName_connector_last [OF a1 a2 a3 a4 a5 a6 a7] unfolding n1 i1 .
  have r2: "FullName_new (str ''maria da silva'' @ str ''  '' @ str ''DE'' @ str '' '')
              = Inr (FullName (str ''Maria da Silva de''))
            \<and> getLastName (FullName (str ''Maria da Silva de''))
              = Some (toLowerCase (str ''DE''))"
    using FullName_connector_last [OF b1 b2 b3 b4 b5 b6 b7] unfolding n2 .
  from r1 r2 show ?thesis unfolding l1 l2 by blast
qed

end
